theory Spec2Isabelle
  imports Main "HOL-Library.Sublist" "HOL-Library.Word"
begin

section \<open>Strings and numbers of the host language\<close>

text \<open>
  The program is a single TypeScript module, \<^verbatim>\<open>src/App.tsx\<close>. Its helper functions are
  pure; the component's \<^verbatim>\<open>handleGenerate\<close> reads and writes React state.

  A JavaScript string is represented by its generalised UTF-8 encoding, one \<^typ>\<open>char\<close> per
  byte: a code point by the bytes of its UTF-8 encoding (a surrogate pair is one code point,
  four bytes), and a lone surrogate U+D800..U+DFFF by the three bytes \<^verbatim>\<open>ED A0..BF 80..BF\<close>,
  which the encoding of no code point contains. UTF-8 is what \<^verbatim>\<open>encodeURIComponent\<close> and
  \<^verbatim>\<open>URLSearchParams\<close> write, and none of the functions below counts code units. The type
  also has byte sequences that encode no string; the properties below hold for them too,
  and every concrete input used is the encoding of a string.
\<close>

definition lower :: "char \<Rightarrow> bool" where
  "lower c = (c \<in> set ''abcdefghijklmnopqrstuvwxyz'')"

definition upper :: "char \<Rightarrow> bool" where
  "upper c = (c \<in> set ''ABCDEFGHIJKLMNOPQRSTUVWXYZ'')"

definition digit :: "char \<Rightarrow> bool" where
  "digit c = (c \<in> set ''0123456789'')"

definition alnum :: "char \<Rightarrow> bool" where
  "alnum c = (lower c \<or> upper c \<or> digit c)"

text \<open>A string has a lone surrogate when the byte \<^verbatim>\<open>ED\<close> is followed by one of \<^verbatim>\<open>A0..BF\<close>.\<close>

definition surrogate_tail :: "char \<Rightarrow> bool" where
  "surrogate_tail c = (0xA0 \<le> (of_char c :: nat) \<and> (of_char c :: nat) \<le> 0xBF)"

fun lone_surrogate :: "string \<Rightarrow> bool" where
  "lone_surrogate (a # b # cs) = (a = CHR 0xED \<and> surrogate_tail b \<or> lone_surrogate (b # cs))"
| "lone_surrogate cs = False"

text \<open>
  \<^verbatim>\<open>String.prototype.trim\<close> removes white space and line terminators from both ends:
  U+0009..U+000D, U+0020, U+00A0, U+1680, U+2000..U+200A, U+2028, U+2029, U+202F, U+205F,
  U+3000 and U+FEFF. The list holds their UTF-8 encodings.
\<close>

definition whitespace :: "string list" where
  "whitespace =
    [[CHR 0x09], [CHR 0x0A], [CHR 0x0B], [CHR 0x0C], [CHR 0x0D], [CHR 0x20],
     [CHR 0xC2, CHR 0xA0],
     [CHR 0xE1, CHR 0x9A, CHR 0x80],
     [CHR 0xE2, CHR 0x80, CHR 0x80], [CHR 0xE2, CHR 0x80, CHR 0x81],
     [CHR 0xE2, CHR 0x80, CHR 0x82], [CHR 0xE2, CHR 0x80, CHR 0x83],
     [CHR 0xE2, CHR 0x80, CHR 0x84], [CHR 0xE2, CHR 0x80, CHR 0x85],
     [CHR 0xE2, CHR 0x80, CHR 0x86], [CHR 0xE2, CHR 0x80, CHR 0x87],
     [CHR 0xE2, CHR 0x80, CHR 0x88], [CHR 0xE2, CHR 0x80, CHR 0x89],
     [CHR 0xE2, CHR 0x80, CHR 0x8A],
     [CHR 0xE2, CHR 0x80, CHR 0xA8], [CHR 0xE2, CHR 0x80, CHR 0xA9],
     [CHR 0xE2, CHR 0x80, CHR 0xAF],
     [CHR 0xE2, CHR 0x81, CHR 0x9F],
     [CHR 0xE3, CHR 0x80, CHR 0x80],
     [CHR 0xEF, CHR 0xBB, CHR 0xBF]]"

text \<open>Removing every leading occurrence of one of the patterns \<open>ps\<close>.\<close>

function strip_prefixes :: "string list \<Rightarrow> string \<Rightarrow> string" where
  "strip_prefixes ps s =
     (case find (\<lambda>p. p \<noteq> [] \<and> prefix p s) ps of
        None \<Rightarrow> s
      | Some p \<Rightarrow> strip_prefixes ps (drop (length p) s))"
  by pat_completeness auto
termination
proof (relation "measure (\<lambda>(ps, s). length s)")
  show "wf (measure (\<lambda>(ps, s). length s))" by simp
next
  fix ps :: "string list" and s p :: string
  assume "find (\<lambda>p. p \<noteq> [] \<and> prefix p s) ps = Some p"
  then have "p \<noteq> []" and "prefix p s"
    by (auto simp: find_Some_iff)
  then have "s \<noteq> []" by auto
  with \<open>p \<noteq> []\<close> show "((ps, drop (length p) s), (ps, s)) \<in> measure (\<lambda>(ps, s). length s)"
    by simp
qed

declare strip_prefixes.simps [simp del]

definition trimStart :: "string \<Rightarrow> string" where
  "trimStart s = strip_prefixes whitespace s"

definition trimEnd :: "string \<Rightarrow> string" where
  "trimEnd s = rev (strip_prefixes (map rev whitespace) (rev s))"

definition trim :: "string \<Rightarrow> string" where
  "trim s = trimEnd (trimStart s)"

text \<open>
  \<^verbatim>\<open>String.prototype.split\<close> with a one-character separator: the pieces between the
  occurrences of the separator, in order; \<open>cur\<close> is the piece being read.
\<close>

fun split_from :: "char \<Rightarrow> string \<Rightarrow> string \<Rightarrow> string list" where
  "split_from sep cur [] = [cur]"
| "split_from sep cur (c # cs) =
     (if c = sep then cur # split_from sep [] cs else split_from sep (cur @ [c]) cs)"

definition split :: "char \<Rightarrow> string \<Rightarrow> string list" where
  "split sep s = split_from sep [] s"

text \<open>
  A value of TypeScript's type \<^verbatim>\<open>number\<close> as the program meets it at run time: an integral
  double, \<^verbatim>\<open>NaN\<close>, an infinity (\<open>Infinity True\<close> is the negative one), or the \<^verbatim>\<open>undefined\<close>
  that destructuring a too short array yields. The sign of zero is not tracked.

  \<open>Num n\<close> is a double when \<open>n\<close> is one, that is when rounding keeps it
  (\<open>toNumber n = Num n\<close>); \<open>toNumber\<close> yields such values only (\<open>toNumber_double\<close> below), and
  with it \<open>parseInt\<close> and \<open>add\<close>. A double with a fractional part has no
  representation: \<^verbatim>\<open>parseInt\<close>, the random draws, the clock and the offsets give the
  program integral numbers only.
\<close>

datatype number = Undefined | NaN | Infinity bool | Num int

function bit_length :: "nat \<Rightarrow> nat" where
  "bit_length n = (if n = 0 then 0 else Suc (bit_length (n div 2)))"
  by pat_completeness auto
termination
  by (relation "measure id") auto

declare bit_length.simps [simp del]

text \<open>
  The double nearest to a natural number, ties to the even significand: numbers below
  \<open>2 ^ 53\<close> are kept; a longer one keeps its 53 leading bits, rounded.
\<close>

definition round53 :: "nat \<Rightarrow> nat" where
  "round53 n =
     (if n < 2 ^ 53 then n
      else
        let e = bit_length n - 53;
            q = n div 2 ^ e;
            r = n mod 2 ^ e;
            q' = (if 2 ^ e < 2 * r \<or> (2 * r = 2 ^ e \<and> odd q) then q + 1 else q)
        in q' * 2 ^ e)"

definition toNumber :: "int \<Rightarrow> number" where
  "toNumber n =
     (let m = round53 (nat \<bar>n\<bar>)
      in if 1024 < bit_length m then Infinity (n < 0) else Num (sgn n * int m))"

text \<open>\<^verbatim>\<open>a + b\<close> on such values.\<close>

fun add :: "number \<Rightarrow> number \<Rightarrow> number" where
  "add (Num a) (Num b) = toNumber (a + b)"
| "add (Infinity a) (Infinity b) = (if a = b then Infinity a else NaN)"
| "add (Infinity a) (Num b) = Infinity a"
| "add (Num a) (Infinity b) = Infinity b"
| "add _ _ = NaN"

text \<open>
  \<^verbatim>\<open>parseInt(s, 10)\<close>: leading white space is skipped, one sign is read, then the longest
  run of decimal digits; with no digit the result is \<^verbatim>\<open>NaN\<close>, otherwise the double nearest
  to the signed value. (For more than 20 significant digits the language lets an engine
  round the digits first; the model rounds once.)
\<close>

definition digit_value :: "char \<Rightarrow> nat" where
  "digit_value c = of_char c - 48"

definition decimal_value :: "string \<Rightarrow> nat" where
  "decimal_value z = foldl (\<lambda>a c. 10 * a + digit_value c) 0 z"

definition parseInt :: "string \<Rightarrow> number" where
  "parseInt s =
     (let t = trimStart s;
          negative = (case t of c # _ \<Rightarrow> c = CHR ''-'' | [] \<Rightarrow> False);
          u = (case t of c # cs \<Rightarrow> if c = CHR ''-'' \<or> c = CHR ''+'' then cs else t | [] \<Rightarrow> t);
          z = takeWhile digit u
      in if z = [] then NaN
         else toNumber ((if negative then - 1 else 1) * int (decimal_value z)))"

text \<open>
  \<^verbatim>\<open>String(n)\<close>. A double prints as the decimal with the fewest significant digits that
  rounds back to it, the one nearest to it when there are several: for an integer below
  \<open>2 ^ 53\<close> these are its own digits. With more than 21 digits before the decimal point
  the exponent form is used.
\<close>

function digits10 :: "nat \<Rightarrow> string" where
  "digits10 n =
     (if n < 10 then [''0123456789'' ! n]
      else digits10 (n div 10) @ [''0123456789'' ! (n mod 10)])"
  by pat_completeness auto
termination
  by (relation "measure id") auto

declare digits10.simps [simp del]

function strip_zeros :: "nat \<Rightarrow> nat" where
  "strip_zeros v = (if v \<noteq> 0 \<and> v mod 10 = 0 then strip_zeros (v div 10) else v)"
  by pat_completeness auto
termination
  by (relation "measure id") auto

declare strip_zeros.simps [simp del]

text \<open>
  The decimals with 1 to 17 significant digits next to \<open>x\<close>, below and above; one of them
  rounds to \<open>x\<close>, and the nearest to \<open>x\<close> with a given number of digits is among them.
\<close>

definition candidates :: "nat \<Rightarrow> nat list" where
  "candidates x =
     (let n = length (digits10 x)
      in concat (map (\<lambda>k. let u = 10 ^ (n - k); f = x div u * u in [f, f + u]) [1 ..< 18]))"

text \<open>\<open>v\<close> is the better decimal for \<open>x\<close>: fewer digits, else nearer, else the even one.\<close>

definition preferred :: "nat \<Rightarrow> nat \<Rightarrow> nat \<Rightarrow> bool" where
  "preferred x v w =
     (let kv = length (digits10 (strip_zeros v));
          kw = length (digits10 (strip_zeros w));
          dv = \<bar>int v - int x\<bar>;
          dw = \<bar>int w - int x\<bar>
      in kv < kw \<or> kv = kw \<and> (dv < dw \<or> dv = dw \<and> even (strip_zeros v) \<and> odd (strip_zeros w)))"

text \<open>
  The better of \<open>b\<close> and the candidate \<open>v\<close>: a candidate counts when it rounds to \<open>x\<close>. The
  search starts from \<open>x\<close> itself.
\<close>

definition better :: "nat \<Rightarrow> nat \<Rightarrow> nat \<Rightarrow> nat" where
  "better x b v = (if toNumber (int v) = toNumber (int x) \<and> preferred x v b then v else b)"

definition shortest :: "nat \<Rightarrow> nat" where
  "shortest x = foldl (better x) x (candidates x)"

definition exponential :: "nat \<Rightarrow> string" where
  "exponential v =
     (let ds = digits10 (strip_zeros v)
      in take 1 ds @ (if 1 < length ds then ''.'' @ drop 1 ds else []) @ ''e+'' @
         digits10 (length (digits10 v) - 1))"

definition decimal_of :: "nat \<Rightarrow> string" where
  "decimal_of x =
     (if x < 2 ^ 53 then digits10 x
      else let v = shortest x
           in if length (digits10 v) \<le> 21 then digits10 v else exponential v)"

fun String :: "number \<Rightarrow> string" where
  "String Undefined = ''undefined''"
| "String NaN = ''NaN''"
| "String (Infinity negative) = (if negative then ''-Infinity'' else ''Infinity'')"
| "String (Num n) = (if n < 0 then ''-'' else []) @ decimal_of (nat \<bar>n\<bar>)"

section \<open>The helpers of \<^verbatim>\<open>App.tsx\<close>\<close>

record dims =
  width :: number
  height :: number

text \<open>
  \<^verbatim>\<open>const [w, h] = res.split('x').map((n) => parseInt(n.trim(), 10))\<close>: an element the
  array does not have destructures to \<^verbatim>\<open>undefined\<close>.
\<close>

definition element :: "number list \<Rightarrow> nat \<Rightarrow> number" where
  "element xs i = (if i < length xs then xs ! i else Undefined)"

definition parseResolution :: "string \<Rightarrow> dims" where
  "parseResolution res =
     (let ns = map (\<lambda>n. parseInt (trim n)) (split CHR ''x'' res)
      in \<lparr>width = element ns 0, height = element ns 1\<rparr>)"


text \<open>
  \<^verbatim>\<open>name.replace(/[^a-z0-9]+/gi, '-')\<close>: scanning from the left, every maximal run of
  characters that are not ASCII letters or digits becomes one hyphen. (Without the \<^verbatim>\<open>u\<close>
  flag no character outside ASCII matches an ASCII letter case-insensitively, and all
  bytes of the UTF-8 encoding of such a character lie outside the class.)
\<close>

function replace_runs :: "string \<Rightarrow> string" where
  "replace_runs [] = []"
| "replace_runs (c # cs) =
     (if alnum c then c # replace_runs cs
      else CHR ''-'' # replace_runs (dropWhile (\<lambda>d. \<not> alnum d) cs))"
  by pat_completeness auto
termination
  by (relation "measure length") (auto simp: length_dropWhile_le less_Suc_eq_le)

text \<open>\<^verbatim>\<open>.replace(/^-+|-+$/g, '')\<close>: the hyphens at the start and those at the end go.\<close>

definition strip_hyphens :: "string \<Rightarrow> string" where
  "strip_hyphens s =
     rev (dropWhile (\<lambda>c. c = CHR ''-'') (rev (dropWhile (\<lambda>c. c = CHR ''-'') s)))"




text \<open>
  \<^verbatim>\<open>encodeURIComponent\<close> throws \<^verbatim>\<open>URIError\<close> when the string has a lone surrogate. Otherwise
  every byte of the UTF-8 encoding is written as \<^verbatim>\<open>%XX\<close>, except the ASCII letters and
  digits and \<^verbatim>\<open>- _ . ! ~ * ' ( )\<close>.
\<close>

datatype exception = URIError

definition percent_byte :: "char \<Rightarrow> string" where
  "percent_byte c =
     [CHR ''%'', ''0123456789ABCDEF'' ! (of_char c div 16), ''0123456789ABCDEF'' ! (of_char c mod 16)]"

definition uri_unreserved :: "char \<Rightarrow> bool" where
  "uri_unreserved c = (alnum c \<or> c \<in> set ''-_.!~*()'' \<or> c = CHR 0x27)"

definition uri_escape :: "string \<Rightarrow> string" where
  "uri_escape s = concat (map (\<lambda>c. if uri_unreserved c then [c] else percent_byte c) s)"

definition encodeURIComponent :: "string \<Rightarrow> exception + string" where
  "encodeURIComponent s = (if lone_surrogate s then Inl URIError else Inr (uri_escape s))"

text \<open>
  \<^verbatim>\<open>URLSearchParams\<close>: an ordered list of name-value pairs. Its constructor and \<^verbatim>\<open>set\<close> take
  their strings as \<^verbatim>\<open>USVString\<close>: every lone surrogate is replaced by U+FFFD, the bytes
  \<^verbatim>\<open>EF BF BD\<close>. \<^verbatim>\<open>set\<close> replaces the first pair of that name and drops the others, or
  appends; \<^verbatim>\<open>toString\<close> is the \<^verbatim>\<open>application/x-www-form-urlencoded\<close> serialisation.
\<close>

type_synonym URLSearchParams = "(string \<times> string) list"

fun toUSVString :: "string \<Rightarrow> string" where
  "toUSVString (a # b # c # cs) =
     (if a = CHR 0xED \<and> surrogate_tail b then [CHR 0xEF, CHR 0xBF, CHR 0xBD] @ toUSVString cs
      else a # toUSVString (b # c # cs))"
| "toUSVString cs = cs"

definition new_URLSearchParams :: "(string \<times> string) list \<Rightarrow> URLSearchParams" where
  "new_URLSearchParams init = map (\<lambda>(k, v). (toUSVString k, toUSVString v)) init"

fun set_pair :: "string \<Rightarrow> string \<Rightarrow> URLSearchParams \<Rightarrow> URLSearchParams" where
  "set_pair name v [] = [(name, v)]"
| "set_pair name v ((k, w) # ps) =
     (if k = name then (name, v) # filter (\<lambda>(k', _). k' \<noteq> name) ps
      else (k, w) # set_pair name v ps)"

definition set_param :: "string \<Rightarrow> string \<Rightarrow> URLSearchParams \<Rightarrow> URLSearchParams" where
  "set_param name v ps = set_pair (toUSVString name) (toUSVString v) ps"

definition form_encode :: "string \<Rightarrow> string" where
  "form_encode s =
     concat (map (\<lambda>c. if c = CHR '' '' then ''+''
                       else if alnum c \<or> c \<in> set ''*-._'' then [c]
                       else percent_byte c) s)"

fun join :: "string \<Rightarrow> string list \<Rightarrow> string" where
  "join sep [] = []"
| "join sep [x] = x"
| "join sep (x # y # zs) = x @ sep @ join sep (y # zs)"

definition toString :: "URLSearchParams \<Rightarrow> string" where
  "toString ps = join ''&'' (map (\<lambda>(k, v). form_encode k @ ''='' @ form_encode v) ps)"

text \<open>
  \<^verbatim>\<open>buildPollinationsUrl({ prompt, width, height, seed, model, enhance })\<close>; the two optional
  fields are \<open>None\<close> when absent. \<open>searchParams\<close> is the value of \<^verbatim>\<open>qs\<close> when it is
  serialised: \<^verbatim>\<open>if (model)\<close> holds for a present, non-empty string, \<^verbatim>\<open>if (enhance)\<close> for a
  present \<^verbatim>\<open>true\<close>.
\<close>

definition searchParams ::
  "number \<Rightarrow> number \<Rightarrow> number \<Rightarrow> string option \<Rightarrow> bool option \<Rightarrow> URLSearchParams" where
  "searchParams w h sd model enhance =
     (let qs = new_URLSearchParams
                 [(''width'', String w), (''height'', String h), (''seed'', String sd),
                  (''nologo'', ''true'')];
          qs = (case model of
                  Some m \<Rightarrow> if m \<noteq> [] then set_param ''model'' m qs else qs
                | None \<Rightarrow> qs);
          qs = (if enhance = Some True then set_param ''enhance'' ''true'' qs else qs)
      in qs)"

text \<open>The function returns the address, or throws what \<^verbatim>\<open>encodeURIComponent\<close> throws.\<close>

definition buildPollinationsUrl ::
  "string \<Rightarrow> number \<Rightarrow> number \<Rightarrow> number \<Rightarrow> string option \<Rightarrow> bool option \<Rightarrow>
   exception + string" where
  "buildPollinationsUrl p w h sd model enhance =
     (let qs = searchParams w h sd model enhance
      in case encodeURIComponent p of
           Inl ex \<Rightarrow> Inl ex
         | Inr segment \<Rightarrow>
             Inr (''https://image.pollinations.ai/prompt/'' @ segment @ ''?'' @ toString qs))"


section \<open>The component state and \<^verbatim>\<open>handleGenerate\<close>\<close>

datatype StyleOption = realistic | artistic | cartoon | abstract | cyberpunk | vintage

datatype Resolution = R512x512 | R768x768 | R1024x1024 | R1536x1024

datatype Quality = standard | high | ultra

text \<open>The string each member of the union type \<^verbatim>\<open>Resolution\<close> is.\<close>

fun token :: "Resolution \<Rightarrow> string" where
  "token R512x512 = ''512x512''"
| "token R768x768 = ''768x768''"
| "token R1024x1024 = ''1024x1024''"
| "token R1536x1024 = ''1536x1024''"

text \<open>
  \<^verbatim>\<open>interface GeneratedImage\<close>; \<open>width\<close> and \<open>height\<close> are the fields of \<^typ>\<open>dims\<close>.
\<close>

record GeneratedImage = dims +
  url :: string
  prompt :: string
  style :: StyleOption
  resolution :: Resolution
  quality :: Quality
  seed :: number

fun STYLE_PRESETS :: "StyleOption \<Rightarrow> string" where
  "STYLE_PRESETS realistic = ''photorealistic, natural lighting, DSLR depth of field, highly detailed''"
| "STYLE_PRESETS artistic = ''digital painting, painterly brushstrokes, dramatic lighting''"
| "STYLE_PRESETS cartoon = ''cartoon, cel-shaded, bold outlines, flat colors''"
| "STYLE_PRESETS abstract = ''abstract, geometric shapes, minimalism''"
| "STYLE_PRESETS cyberpunk = ''cyberpunk, neon lights, rain-soaked streets, holograms, high contrast''"
| "STYLE_PRESETS vintage = ''vintage, film grain, faded colors, 35mm photo, 1970s aesthetic''"

fun MODEL_BY_STYLE :: "StyleOption \<Rightarrow> string" where
  "MODEL_BY_STYLE realistic = ''flux''"
| "MODEL_BY_STYLE artistic = ''flux''"
| "MODEL_BY_STYLE cartoon = ''flux''"
| "MODEL_BY_STYLE abstract = ''flux''"
| "MODEL_BY_STYLE cyberpunk = ''flux''"
| "MODEL_BY_STYLE vintage = ''flux''"

datatype StatusType = success | error | info

text \<open>
  The \<^verbatim>\<open>useState\<close> cells of \<^verbatim>\<open>App\<close> that \<^verbatim>\<open>handleGenerate\<close> and the viewer touch; the five
  inputs carry the prefix \<open>st\<close> because the image record has fields of the same names.
  Two more fields record effects: \<open>shown\<close> lists the calls of \<^verbatim>\<open>showStatus\<close>, oldest
  first, and \<open>clearTimers\<close> counts the \<^verbatim>\<open>setTimeout(() => setStatus(null), 5000)\<close> it has
  scheduled. (The theme cell is presentation only.)
\<close>

record App =
  st_prompt :: string
  st_style :: StyleOption
  st_resolution :: Resolution
  st_quality :: Quality
  st_count :: nat
  isGenerating :: bool
  status :: "(StatusType \<times> string) option"
  images :: "GeneratedImage list"
  modalUrl :: "string option"
  modalPrompt :: string
  shown :: "(StatusType \<times> string) list"
  clearTimers :: nat

definition showStatus :: "StatusType \<Rightarrow> string \<Rightarrow> App \<Rightarrow> App" where
  "showStatus ty message s =
     (let s' = s\<lparr>status := Some (ty, message), shown := shown s @ [(ty, message)]\<rparr>
      in if ty \<noteq> error then s'\<lparr>clearTimers := Suc (clearTimers s')\<rparr> else s')"

definition openModal :: "string \<Rightarrow> string \<Rightarrow> App \<Rightarrow> App" where
  "openModal u p s = s\<lparr>modalUrl := Some u, modalPrompt := p\<rparr>"

definition closeModal :: "App \<Rightarrow> App" where
  "closeModal s = s\<lparr>modalUrl := None, modalPrompt := []\<rparr>"

text \<open>
  What the seed expression reads from the browser: \<open>crypto\<close> is \<open>None\<close> when
  \<^verbatim>\<open>window.crypto?.getRandomValues\<close> is missing, and otherwise gives the 32-bit value its
  \<open>k\<close>-th call within one \<^verbatim>\<open>handleGenerate\<close> writes into the \<^verbatim>\<open>Uint32Array\<close>; \<open>now\<close> gives the
  result of the \<open>k\<close>-th \<^verbatim>\<open>Date.now()\<close>, milliseconds as an integer.
\<close>

record env =
  crypto :: "(nat \<Rightarrow> 32 word) option"
  now :: "nat \<Rightarrow> int"

text \<open>
  \<^verbatim>\<open>window.crypto?.getRandomValues?.(new Uint32Array(1))[0] ?? Date.now()\<close>, evaluated for
  the \<open>k\<close>-th time: the expression stands inside the callback of \<^verbatim>\<open>map\<close>, so every image
  of a batch evaluates it anew.
\<close>

definition draw :: "env \<Rightarrow> nat \<Rightarrow> number" where
  "draw e k =
     (case crypto e of
        Some getRandomValues \<Rightarrow> Num (uint (getRandomValues k))
      | None \<Rightarrow> Num (now e k))"

definition qualityPreset :: "Quality \<Rightarrow> string" where
  "qualityPreset q =
     (if q = ultra then ''ultra-detailed, crisp focus, 8k''
      else if q = high then ''high detail, sharp focus''
      else [])"

definition enhancedPrompt :: "StyleOption \<Rightarrow> Quality \<Rightarrow> string \<Rightarrow> string" where
  "enhancedPrompt st q trimmed =
     STYLE_PRESETS st @ '', '' @ trimmed @
     (if qualityPreset q \<noteq> [] then '', '' @ qualityPreset q else [])"

text \<open>
  \<^verbatim>\<open>Array.prototype.map\<close> with a callback that may throw: the elements are mapped in order,
  and the first exception ends the call.
\<close>

fun map_throwing :: "('a \<Rightarrow> exception + 'b) \<Rightarrow> 'a list \<Rightarrow> exception + 'b list" where
  "map_throwing f [] = Inr []"
| "map_throwing f (x # xs) =
     (case f x of
        Inl ex \<Rightarrow> Inl ex
      | Inr y \<Rightarrow> (case map_throwing f xs of Inl ex \<Rightarrow> Inl ex | Inr ys \<Rightarrow> Inr (y # ys)))"

text \<open>
  The callback of \<^verbatim>\<open>Array.from({ length: count }).map((_, i) => ...)\<close>, and the array
  \<^verbatim>\<open>next\<close>.
\<close>

definition nextImage :: "env \<Rightarrow> App \<Rightarrow> string \<Rightarrow> nat \<Rightarrow> exception + GeneratedImage" where
  "nextImage e s trimmed i =
     (let d = parseResolution (token (st_resolution s));
          model = MODEL_BY_STYLE (st_style s);
          enhance = (st_quality s \<noteq> standard);
          sd = add (draw e i) (Num (int i))
      in case buildPollinationsUrl (enhancedPrompt (st_style s) (st_quality s) trimmed)
                (width d) (height d) sd (Some model) (Some enhance) of
           Inl ex \<Rightarrow> Inl ex
         | Inr u \<Rightarrow>
             Inr \<lparr>width = width d, height = height d, url = u, prompt = trimmed,
                  style = st_style s, resolution = st_resolution s, quality = st_quality s,
                  seed = sd\<rparr>)"

definition nextImages :: "env \<Rightarrow> App \<Rightarrow> string \<Rightarrow> exception + GeneratedImage list" where
  "nextImages e s trimmed = map_throwing (nextImage e s trimmed) [0 ..< st_count s]"

text \<open>
  \<^verbatim>\<open>handleGenerate\<close> is asynchronous. The first function is the part that runs when it is
  called, up to the \<^verbatim>\<open>await\<close>. It gives the new state and how the call went on: it
  returned at once, or it awaits the delay with the array \<^verbatim>\<open>next\<close> in hand, or it threw
  (nothing catches the exception; the state written before it stays). The second function
  is the continuation, which runs 600 ms later on the state of that moment.
\<close>

datatype outcome = Returned | Awaiting "GeneratedImage list" | Threw exception

fun awaited :: "outcome \<Rightarrow> GeneratedImage list option" where
  "awaited (Awaiting batch) = Some batch"
| "awaited other = None"

definition handleGenerate :: "env \<Rightarrow> App \<Rightarrow> App \<times> outcome" where
  "handleGenerate e s =
     (let trimmed = trim (st_prompt s)
      in if trimmed = [] then
           (showStatus error ''Please enter a description for your image.'' s, Returned)
         else if isGenerating s then (s, Returned)
         else
           let s1 = showStatus info ''Generating your images...''
                      (s\<lparr>isGenerating := True, images := []\<rparr>)
           in case nextImages e s trimmed of
                Inl ex \<Rightarrow> (s1, Threw ex)
              | Inr batch \<Rightarrow> (s1, Awaiting batch))"



text \<open>The state \<^verbatim>\<open>App\<close> starts in: the initial values of its \<^verbatim>\<open>useState\<close> cells.\<close>

definition initial :: App where
  "initial =
     \<lparr>st_prompt = [], st_style = realistic, st_resolution = R512x512, st_quality = standard,
      st_count = 1, isGenerating = False, status = None, images = [], modalUrl = None,
      modalPrompt = [], shown = [], clearTimers = 0\<rparr>"

section \<open>Notions the properties are stated with\<close>

text \<open>A non-negative integer that fits 32 bits.\<close>

definition is_uint32 :: "number \<Rightarrow> bool" where
  "is_uint32 x = (case x of Num n \<Rightarrow> 0 \<le> n \<and> n \<le> 2 ^ 32 - 1 | _ \<Rightarrow> False)"

text \<open>A non-empty string of decimal digits, the \<^verbatim>\<open><int>\<close> of a resolution token.\<close>

definition decimal :: "string \<Rightarrow> bool" where
  "decimal z = (z \<noteq> [] \<and> list_all digit z)"

text \<open>
  What the receiver of an address does to a path segment: \<^verbatim>\<open>%XX\<close> becomes the byte with
  that hexadecimal value, any other character stands for itself; \<open>None\<close> for a \<^verbatim>\<open>%\<close> that
  two hexadecimal digits do not follow.
\<close>

definition hex_value :: "char \<Rightarrow> nat option" where
  "hex_value c =
     map_of (zip ''0123456789ABCDEF'' [0, 1, 2, 3, 4, 5, 6, 7, 8, 9, 10, 11, 12, 13, 14, 15] @
             zip ''abcdef'' [10, 11, 12, 13, 14, 15]) c"

fun percent_decode :: "string \<Rightarrow> string option" where
  "percent_decode [] = Some []"
| "percent_decode (c # cs) =
     (if c = CHR ''%'' then
        (case cs of
           a # b # rest \<Rightarrow>
             (case (hex_value a, hex_value b) of
                (Some x, Some y) \<Rightarrow> map_option ((#) (char_of (16 * x + y))) (percent_decode rest)
              | _ \<Rightarrow> None)
         | _ \<Rightarrow> None)
      else map_option ((#) c) (percent_decode cs))"

text \<open>
  What the receiver of an address reads as its query: what stands between the first
  \<^verbatim>\<open>?\<close> and the first \<^verbatim>\<open>#\<close> after it. The parameters in it are the pieces between the
  \<^verbatim>\<open>&\<close>, the empty ones skipped; in each, the name ends at the first \<^verbatim>\<open>=\<close>, and in name
  and value \<^verbatim>\<open>+\<close> stands for a space and \<^verbatim>\<open>%XX\<close> for a byte.
\<close>

definition query_of :: "string \<Rightarrow> string" where
  "query_of u =
     takeWhile (\<lambda>c. c \<noteq> CHR ''#'') (drop 1 (dropWhile (\<lambda>c. c \<noteq> CHR ''?'') u))"

fun form_decode :: "string \<Rightarrow> string" where
  "form_decode [] = []"
| "form_decode (c # cs) =
     (if c = CHR ''+'' then CHR '' '' # form_decode cs
      else if c = CHR ''%'' then
        (case cs of
           a # b # rest \<Rightarrow>
             (case (hex_value a, hex_value b) of
                (Some x, Some y) \<Rightarrow> char_of (16 * x + y) # form_decode rest
              | _ \<Rightarrow> c # form_decode cs)
         | _ \<Rightarrow> c # form_decode cs)
      else c # form_decode cs)"

definition parse_pair :: "string \<Rightarrow> string \<times> string" where
  "parse_pair p =
     (form_decode (takeWhile (\<lambda>c. c \<noteq> CHR ''='') p),
      form_decode (drop 1 (dropWhile (\<lambda>c. c \<noteq> CHR ''='') p)))"

definition parse_query :: "string \<Rightarrow> (string \<times> string) list" where
  "parse_query q = map parse_pair (filter (\<lambda>p. p \<noteq> []) (split CHR ''&'' q))"

text \<open>
  Letters and digits with single hyphens between them: every character is a letter or a
  digit, or a hyphen that a letter or digit follows. The weak form lets the string end with
  a hyphen.
\<close>

fun separated :: "string \<Rightarrow> bool" where
  "separated [] = True"
| "separated [c] = alnum c"
| "separated (c # d # cs) = ((alnum c \<or> c = CHR ''-'' \<and> alnum d) \<and> separated (d # cs))"

fun weakly_separated :: "string \<Rightarrow> bool" where
  "weakly_separated [] = True"
| "weakly_separated [c] = (alnum c \<or> c = CHR ''-'')"
| "weakly_separated (c # d # cs) =
     ((alnum c \<or> c = CHR ''-'' \<and> alnum d) \<and> weakly_separated (d # cs))"

text \<open>Text of ASCII characters only.\<close>

definition ascii :: "string \<Rightarrow> bool" where
  "ascii s = (\<forall>c \<in> set s. (of_char c :: nat) < 128)"

section \<open>Properties\<close>

subsection \<open>Lone surrogates\<close>

lemma ascii_char: "(of_char c :: nat) < 128 \<Longrightarrow> c \<noteq> CHR 0xED \<and> \<not> surrogate_tail c"
  by (auto simp: surrogate_tail_def)

lemma lone_surrogate_Cons:
  "lone_surrogate (a # s) = (s \<noteq> [] \<and> a = CHR 0xED \<and> surrogate_tail (hd s) \<or> lone_surrogate s)"
  by (cases s) auto

lemma lone_surrogate_ascii_append: "ascii a \<Longrightarrow> lone_surrogate (a @ t) = lone_surrogate t"
proof (induction a)
  case Nil
  show ?case by simp
next
  case (Cons c a)
  then have "c \<noteq> CHR 0xED" and "ascii a" by (auto simp: ascii_def dest: ascii_char)
  with Cons.IH show ?case by (simp add: lone_surrogate_Cons)
qed

lemma lone_surrogate_append_ascii: "ascii b \<Longrightarrow> lone_surrogate (t @ b) = lone_surrogate t"
proof (induction t)
  case Nil
  then show ?case using lone_surrogate_ascii_append [of b "[]"] by simp
next
  case (Cons c t)
  have "t @ b \<noteq> [] \<and> surrogate_tail (hd (t @ b)) \<longleftrightarrow> t \<noteq> [] \<and> surrogate_tail (hd t)"
  proof (cases t)
    case Nil
    with Cons.prems show ?thesis by (cases b) (auto simp: ascii_def dest: ascii_char)
  next
    case (Cons d ds)
    then show ?thesis by simp
  qed
  with Cons show ?case by (auto simp: lone_surrogate_Cons)
qed

lemma lone_surrogate_drop: "lone_surrogate (drop n s) \<Longrightarrow> lone_surrogate s"
proof (induction s arbitrary: n)
  case Nil
  then show ?case by simp
next
  case (Cons c s)
  show ?case
  proof (cases n)
    case 0
    with Cons.prems show ?thesis by simp
  next
    case (Suc m)
    with Cons have "lone_surrogate s" by simp
    then show ?thesis by (simp add: lone_surrogate_Cons)
  qed
qed

lemma lone_surrogate_take: "lone_surrogate (take n s) \<Longrightarrow> lone_surrogate s"
proof (induction s arbitrary: n rule: lone_surrogate.induct)
  case (1 a b cs)
  show ?case
  proof (cases n)
    case 0
    with "1.prems" show ?thesis by simp
  next
    case (Suc m)
    show ?thesis
    proof (cases m)
      case 0
      with Suc "1.prems" show ?thesis by simp
    next
      case (Suc k)
      with \<open>n = Suc m\<close> "1.prems"
      have "a = CHR 0xED \<and> surrogate_tail b \<or> lone_surrogate (take m (b # cs))" by simp
      with "1.IH" [of m] show ?thesis by auto
    qed
  qed
qed (simp_all add: take_Cons' split: if_splits)

lemma strip_prefixes_drop: "\<exists>n. strip_prefixes ps s = drop n s"
proof (induction ps s rule: strip_prefixes.induct)
  case (1 ps s)
  show ?case
  proof (cases "find (\<lambda>p. p \<noteq> [] \<and> prefix p s) ps")
    case None
    then have "strip_prefixes ps s = drop 0 s" by (subst strip_prefixes.simps) simp
    then show ?thesis by blast
  next
    case (Some p)
    with 1 obtain n where "strip_prefixes ps (drop (length p) s) = drop n (drop (length p) s)"
      by blast
    with Some have "strip_prefixes ps s = drop (n + length p) s"
      by (subst strip_prefixes.simps) simp
    then show ?thesis by blast
  qed
qed

lemma lone_surrogate_trim: "lone_surrogate (trim s) \<Longrightarrow> lone_surrogate s"
proof -
  assume l: "lone_surrogate (trim s)"
  obtain n where n: "trimStart s = drop n s"
    using strip_prefixes_drop [of whitespace s] by (auto simp: trimStart_def)
  obtain m where "strip_prefixes (map rev whitespace) (rev (trimStart s)) = drop m (rev (trimStart s))"
    using strip_prefixes_drop by blast
  then have "trim s = take (length (trimStart s) - m) (trimStart s)"
    by (simp add: trim_def trimEnd_def rev_drop)
  with l have "lone_surrogate (trimStart s)" by (auto dest: lone_surrogate_take)
  with n show ?thesis by (auto dest: lone_surrogate_drop)
qed

lemma ascii_presets: "ascii (STYLE_PRESETS st @ '', '')"
  by (cases st) (simp_all add: ascii_def)

lemma ascii_quality: "ascii (if qualityPreset q \<noteq> [] then '', '' @ qualityPreset q else [])"
  by (simp add: ascii_def qualityPreset_def)

lemma lone_surrogate_enhancedPrompt:
  "lone_surrogate (enhancedPrompt st q t) = lone_surrogate t"
proof -
  have "enhancedPrompt st q t =
        (STYLE_PRESETS st @ '', '') @ t @ (if qualityPreset q \<noteq> [] then '', '' @ qualityPreset q else [])"
    by (simp add: enhancedPrompt_def)
  then show ?thesis
    by (simp only: lone_surrogate_ascii_append [OF ascii_presets]
        lone_surrogate_append_ascii [OF ascii_quality])
qed


subsection \<open>Evaluation helpers\<close>

lemma trim_empty: "trim [] = []"
  by (simp add: trim_def trimStart_def trimEnd_def whitespace_def strip_prefixes.simps)

lemma trim_spaces: "trim ''   '' = []"
  by (simp add: trim_def trimStart_def trimEnd_def whitespace_def strip_prefixes.simps)

lemma trim_a_cat: "trim ''a cat'' = ''a cat''"
  by (simp add: trim_def trimStart_def trimEnd_def whitespace_def strip_prefixes.simps)

lemma trim_padded_cat: "trim ''  a cat '' = ''a cat''"
  by (simp add: trim_def trimStart_def trimEnd_def whitespace_def strip_prefixes.simps)

lemma upt_2: "[0 ..< 2] = [0, 1]"
  by (simp add: numeral_2_eq_2)

subsection \<open>Doubles that are exact\<close>

lemma bit_length_le: "n < 2 ^ k \<Longrightarrow> bit_length n \<le> k"
proof (induction k arbitrary: n)
  case 0
  then show ?case by (simp add: bit_length.simps)
next
  case (Suc k)
  show ?case
  proof (cases "n = 0")
    case True
    then show ?thesis by (simp add: bit_length.simps)
  next
    case False
    from Suc.prems have "n div 2 < 2 ^ k" by simp
    then have "bit_length (n div 2) \<le> k" by (rule Suc.IH)
    with False show ?thesis by (subst bit_length.simps) simp
  qed
qed

lemma toNumber_exact:
  assumes "\<bar>n\<bar> < 2 ^ 53"
  shows "toNumber n = Num n"
proof -
  from assms have lt: "nat \<bar>n\<bar> < 2 ^ 53" by (simp add: nat_less_iff)
  then have r: "round53 (nat \<bar>n\<bar>) = nat \<bar>n\<bar>" by (simp add: round53_def)
  from lt have "bit_length (nat \<bar>n\<bar>) \<le> 53" by (rule bit_length_le)
  then have "\<not> 1024 < bit_length (nat \<bar>n\<bar>)" by simp
  moreover have "sgn n * int (nat \<bar>n\<bar>) = n" by (simp add: mult_sgn_abs)
  ultimately show ?thesis using r by (simp add: toNumber_def)
qed


subsection \<open>What \<^verbatim>\<open>buildPollinationsUrl\<close> and the batch return or throw\<close>

lemma buildPollinationsUrl_returns:
  "\<not> lone_surrogate p \<Longrightarrow>
   buildPollinationsUrl p w h sd model enhance =
     Inr (''https://image.pollinations.ai/prompt/'' @ uri_escape p @ ''?'' @
          toString (searchParams w h sd model enhance))"
  by (simp add: buildPollinationsUrl_def encodeURIComponent_def)

lemma buildPollinationsUrl_throws:
  "lone_surrogate p \<Longrightarrow> buildPollinationsUrl p w h sd model enhance = Inl URIError"
  by (simp add: buildPollinationsUrl_def encodeURIComponent_def)

lemma map_throwing_returns:
  "(\<And>x. x \<in> set xs \<Longrightarrow> f x = Inr (g x)) \<Longrightarrow> map_throwing f xs = Inr (map g xs)"
  by (induction xs) simp_all


lemma nextImage_returns:
  assumes "\<not> lone_surrogate t"
  shows "nextImage e s t i =
     Inr \<lparr>width = width (parseResolution (token (st_resolution s))),
          height = height (parseResolution (token (st_resolution s))),
          url = ''https://image.pollinations.ai/prompt/'' @
                uri_escape (enhancedPrompt (st_style s) (st_quality s) t) @ ''?'' @
                toString (searchParams (width (parseResolution (token (st_resolution s))))
                  (height (parseResolution (token (st_resolution s))))
                  (add (draw e i) (Num (int i)))
                  (Some (MODEL_BY_STYLE (st_style s))) (Some (st_quality s \<noteq> standard))),
          prompt = t, style = st_style s, resolution = st_resolution s,
          quality = st_quality s, seed = add (draw e i) (Num (int i))\<rparr>"
proof -
  from assms have "\<not> lone_surrogate (enhancedPrompt (st_style s) (st_quality s) t)"
    by (simp add: lone_surrogate_enhancedPrompt)
  then show ?thesis
    by (simp add: nextImage_def Let_def buildPollinationsUrl_returns)
qed

lemma nextImages_returns:
  assumes "\<not> lone_surrogate t"
  shows "\<exists>batch. nextImages e s t = Inr batch \<and> length batch = st_count s \<and>
           (\<forall>i < st_count s. nextImage e s t i = Inr (batch ! i))"
proof -
  let ?g = "\<lambda>i. projr (nextImage e s t i)"
  have g: "nextImage e s t i = Inr (?g i)" for i
    using nextImage_returns [OF assms, of e s i] by simp
  then have "nextImages e s t = Inr (map ?g [0 ..< st_count s])"
    unfolding nextImages_def by (intro map_throwing_returns) simp
  moreover have "\<forall>i < st_count s. nextImage e s t i = Inr (map ?g [0 ..< st_count s] ! i)"
    using g by simp
  ultimately show ?thesis by simp
qed


lemma handleGenerate_awaits:
  assumes "handleGenerate e s = (s1, Awaiting batch)"
  shows "trim (st_prompt s) \<noteq> []" and "\<not> isGenerating s"
    and "nextImages e s (trim (st_prompt s)) = Inr batch"
    and "s1 = showStatus info ''Generating your images...'' (s\<lparr>isGenerating := True, images := []\<rparr>)"
  using assms by (auto simp: handleGenerate_def Let_def split: if_splits sum.splits)

lemma nextImages_nth:
  assumes "nextImages e s t = Inr batch"
  shows "length batch = st_count s"
    and "i < st_count s \<Longrightarrow> nextImage e s t i = Inr (batch ! i)"
proof -
  have *: "map_throwing f xs = Inr ys \<Longrightarrow>
           length ys = length xs \<and> (\<forall>i < length xs. f (xs ! i) = Inr (ys ! i))"
    for f :: "nat \<Rightarrow> exception + GeneratedImage" and xs ys
  proof (induction xs arbitrary: ys)
    case Nil
    then show ?case by simp
  next
    case (Cons x xs)
    from Cons.prems obtain y zs where y: "f x = Inr y" and zs: "map_throwing f xs = Inr zs"
      and ys: "ys = y # zs"
      by (auto split: sum.splits)
    from Cons.IH [OF zs] y ys show ?case
      by (auto simp: nth_Cons split: nat.splits)
  qed
  from assms have m: "map_throwing (nextImage e s t) [0 ..< st_count s] = Inr batch"
    by (simp add: nextImages_def)
  from * [OF m] show "length batch = st_count s" by simp
  from * [OF m] show "i < st_count s \<Longrightarrow> nextImage e s t i = Inr (batch ! i)" by simp
qed

lemma seed_nextImage: "nextImage e s t i = Inr img \<Longrightarrow> seed img = add (draw e i) (Num (int i))"
  by (auto simp: nextImage_def Let_def split: sum.splits)

lemma not_lone_a_cat: "\<not> lone_surrogate ''a cat''"
  by simp

lemma seeds_nextImages:
  "\<not> lone_surrogate t \<Longrightarrow>
   map_sum id (map seed) (nextImages e s t) =
     Inr (map (\<lambda>i. add (draw e i) (Num (int i))) [0 ..< st_count s])"
proof -
  assume t: "\<not> lone_surrogate t"
  let ?g = "\<lambda>i. projr (nextImage e s t i)"
  have g: "nextImage e s t i = Inr (?g i)" for i
    using nextImage_returns [OF t, of e s i] by simp
  then have n: "nextImages e s t = Inr (map ?g [0 ..< st_count s])"
    unfolding nextImages_def by (intro map_throwing_returns) simp
  have "seed (?g i) = add (draw e i) (Num (int i))" for i
    using g [of i] by (rule seed_nextImage)
  with n show ?thesis by (simp add: comp_def)
qed


lemma handleGenerate_starts:
  assumes "\<not> isGenerating s" and "trim (st_prompt s) \<noteq> []"
    and "\<not> lone_surrogate (trim (st_prompt s))"
  shows "\<exists>batch. nextImages e s (trim (st_prompt s)) = Inr batch \<and>
           handleGenerate e s =
             (showStatus info ''Generating your images...'' (s\<lparr>isGenerating := True, images := []\<rparr>),
              Awaiting batch)"
proof -
  from nextImages_returns [OF assms(3), of e s]
  obtain batch where "nextImages e s (trim (st_prompt s)) = Inr batch" by blast
  with assms(1,2) show ?thesis by (simp add: handleGenerate_def Let_def)
qed

subsection \<open>The seeds of a batch\<close>

text \<open>
  Claim C1 says that the seeds of one batch are pairwise distinct because seed \<open>i\<close> is one
  random draw plus \<open>i\<close>. The code adds \<open>i\<close>, but it draws inside the callback, once per
  image: when the first draw is 1 and the second is 0, a batch of two gets the seed 1 twice.
\<close>

theorem batch_seeds_collide:
  "map_option (map seed)
     (awaited (snd (handleGenerate \<lparr>crypto = Some (\<lambda>k. if k = 0 then 1 else 0), now = (\<lambda>k. 0)\<rparr>
                     (initial\<lparr>st_prompt := ''a cat'', st_count := 2\<rparr>)))) =
   Some [Num 1, Num 1]"
proof -
  let ?e = "\<lparr>crypto = Some (\<lambda>k. if k = 0 then 1 else 0), now = (\<lambda>k. 0)\<rparr>"
  let ?s = "initial\<lparr>st_prompt := ''a cat'', st_count := 2\<rparr>"
  have t: "trim (st_prompt ?s) = ''a cat''" by (simp add: trim_a_cat)
  have "\<not> isGenerating ?s" by (simp add: initial_def)
  with t handleGenerate_starts [of ?s ?e] not_lone_a_cat
  obtain batch where b: "nextImages ?e ?s ''a cat'' = Inr batch"
    and h: "snd (handleGenerate ?e ?s) = Awaiting batch"
    by auto
  from seeds_nextImages [OF not_lone_a_cat, of ?e ?s] b
  have "map seed batch = [Num 1, Num 1]"
    by (simp add: draw_def toNumber_exact upt_2)
  with h show ?thesis by simp
qed

text \<open>
  Claim C2 says that every seed is a non-negative integer that fits 32 bits, under both
  sources. It is not: the offset \<open>i\<close> is added to a draw that may already be \<open>2 ^ 32 - 1\<close>,
  and the fallback is a clock reading in milliseconds.
\<close>

theorem seed_exceeds_32_bits:
  "map_option (map seed)
     (awaited (snd (handleGenerate \<lparr>crypto = Some (\<lambda>k. 0xFFFFFFFF), now = (\<lambda>k. 0)\<rparr>
                     (initial\<lparr>st_prompt := ''a cat'', st_count := 2\<rparr>)))) =
   Some [Num 4294967295, Num 4294967296] \<and>
   \<not> is_uint32 (Num 4294967296) \<and>
   map_option (map seed)
     (awaited (snd (handleGenerate \<lparr>crypto = None, now = (\<lambda>k. 1700000000000)\<rparr>
                     (initial\<lparr>st_prompt := ''a cat''\<rparr>)))) =
   Some [Num 1700000000000] \<and>
   \<not> is_uint32 (Num 1700000000000)"
proof -
  let ?e = "\<lparr>crypto = Some (\<lambda>k. 0xFFFFFFFF), now = (\<lambda>k. 0)\<rparr>"
  let ?s = "initial\<lparr>st_prompt := ''a cat'', st_count := 2\<rparr>"
  let ?e' = "\<lparr>crypto = None, now = (\<lambda>k. 1700000000000)\<rparr>"
  let ?s' = "initial\<lparr>st_prompt := ''a cat''\<rparr>"
  have "trim (st_prompt ?s) = ''a cat''" and "\<not> isGenerating ?s"
    by (simp_all add: trim_a_cat initial_def)
  with handleGenerate_starts [of ?s ?e] not_lone_a_cat
  obtain batch where b: "nextImages ?e ?s ''a cat'' = Inr batch"
    and h: "snd (handleGenerate ?e ?s) = Awaiting batch"
    by auto
  from seeds_nextImages [OF not_lone_a_cat, of ?e ?s] b
  have "map seed batch = [Num 4294967295, Num 4294967296]"
    by (simp add: draw_def toNumber_exact upt_2)
  with h have 1: "map_option (map seed) (awaited (snd (handleGenerate ?e ?s))) =
      Some [Num 4294967295, Num 4294967296]"
    by simp
  have "trim (st_prompt ?s') = ''a cat''" and "\<not> isGenerating ?s'"
    by (simp_all add: trim_a_cat initial_def)
  with handleGenerate_starts [of ?s' ?e'] not_lone_a_cat
  obtain batch' where b': "nextImages ?e' ?s' ''a cat'' = Inr batch'"
    and h': "snd (handleGenerate ?e' ?s') = Awaiting batch'"
    by auto
  from seeds_nextImages [OF not_lone_a_cat, of ?e' ?s'] b'
  have "map seed batch' = [Num 1700000000000]"
    by (simp add: draw_def toNumber_exact initial_def)
  with h' have 2: "map_option (map seed) (awaited (snd (handleGenerate ?e' ?s'))) =
      Some [Num 1700000000000]"
    by simp
  have 3: "\<not> is_uint32 (Num 4294967296)" "\<not> is_uint32 (Num 1700000000000)"
    by (simp_all add: is_uint32_def)
  from 1 2 3 show ?thesis by (intro conjI)
qed

text \<open>
  Claim C2 as amended: in a batch of 1, 2 or 4 images every seed is a non-negative integer.
  With the cryptographic source, seed \<open>i\<close> is the 32-bit draw made for image \<open>i\<close> plus \<open>i\<close>,
  so it lies between 0 and \<open>2 ^ 32 - 1 + i\<close>. With the fallback it is the clock reading
  plus \<open>i\<close>, for a reading between 0 and the largest time value of the language
  (8.64e15 ms); no 32-bit bound holds for it.
\<close>

theorem seed_range:
  assumes "handleGenerate e s = (s1, Awaiting batch)"
    and "st_count s \<in> {1, 2, 4}"
    and "i < length batch"
  shows "case crypto e of
           Some getRandomValues \<Rightarrow>
             seed (batch ! i) = Num (uint (getRandomValues i) + int i) \<and>
             0 \<le> uint (getRandomValues i) + int i \<and>
             uint (getRandomValues i) + int i \<le> 2 ^ 32 - 1 + int i
         | None \<Rightarrow>
             (0 \<le> now e i \<and> now e i \<le> 8640000000000000 \<longrightarrow>
              seed (batch ! i) = Num (now e i + int i) \<and> 0 \<le> now e i + int i)"
proof -
  from assms(1) have b: "nextImages e s (trim (st_prompt s)) = Inr batch"
    by (rule handleGenerate_awaits)
  with assms(3) have i: "i < st_count s" by (simp add: nextImages_nth(1))
  with assms(2) have i4: "i < 4" by auto
  from b i have "nextImage e s (trim (st_prompt s)) i = Inr (batch ! i)"
    by (rule nextImages_nth(2))
  then have sd: "seed (batch ! i) = add (draw e i) (Num (int i))"
    by (rule seed_nextImage)
  show ?thesis
  proof (cases "crypto e")
    case None
    show ?thesis
    proof (simp only: None option.case, intro impI)
      assume r: "0 \<le> now e i \<and> now e i \<le> 8640000000000000"
      with i4 have "\<bar>now e i + int i\<bar> < 2 ^ 53" by simp
      then have "toNumber (now e i + int i) = Num (now e i + int i)" by (rule toNumber_exact)
      with sd None r show "seed (batch ! i) = Num (now e i + int i) \<and> 0 \<le> now e i + int i"
        by (simp add: draw_def)
    qed
  next
    case (Some g)
    have u: "0 \<le> uint (g i)" "uint (g i) \<le> 2 ^ 32 - 1"
      using uint_lt2p [of "g i"] by simp_all
    with i4 have "\<bar>uint (g i) + int i\<bar> < 2 ^ 53" by simp
    then have "toNumber (uint (g i) + int i) = Num (uint (g i) + int i)" by (rule toNumber_exact)
    with sd Some u show ?thesis by (simp add: draw_def)
  qed
qed

theorem seed_range_witness:
  "st_count (initial\<lparr>st_prompt := ''a cat'', st_count := 2\<rparr>) \<in> {1, 2, 4} \<and>
   (\<exists>s1 batch.
      handleGenerate \<lparr>crypto = Some (\<lambda>k. 0xFFFFFFFF), now = (\<lambda>k. 0)\<rparr>
        (initial\<lparr>st_prompt := ''a cat'', st_count := 2\<rparr>) = (s1, Awaiting batch) \<and>
      1 < length batch \<and> seed (batch ! 1) = Num 4294967296)"
proof -
  let ?e = "\<lparr>crypto = Some (\<lambda>k. 0xFFFFFFFF), now = (\<lambda>k. 0)\<rparr>"
  let ?s = "initial\<lparr>st_prompt := ''a cat'', st_count := 2\<rparr>"
  have c: "st_count ?s \<in> {1, 2, 4}" by simp
  have "trim (st_prompt ?s) = ''a cat''" and "\<not> isGenerating ?s"
    by (simp_all add: trim_a_cat initial_def)
  with handleGenerate_starts [of ?s ?e] not_lone_a_cat
  obtain s1 batch where b: "nextImages ?e ?s ''a cat'' = Inr batch"
    and h: "handleGenerate ?e ?s = (s1, Awaiting batch)"
    by auto
  from b have l: "1 < length batch" by (simp add: nextImages_nth(1))
  from seed_range [OF h c l] have "seed (batch ! 1) = Num 4294967296" by simp
  with c h l show ?thesis by blast
qed


subsection \<open>Starting a generation\<close>

text \<open>
  The component has no cell that names a session state. It is generating while
  \<open>isGenerating\<close> holds, and it has failed when the status shown is an error.

  Claim C3: a call of \<^verbatim>\<open>handleGenerate\<close> whose prompt is empty after trimming produces no
  images (the call returns at once, the list of images stays), shows the error status and
  records that notification, and does not set \<open>isGenerating\<close>.
\<close>

theorem empty_prompt_fails:
  assumes "trim (st_prompt s) = []"
  shows "snd (handleGenerate e s) = Returned \<and>
         images (fst (handleGenerate e s)) = images s \<and>
         isGenerating (fst (handleGenerate e s)) = isGenerating s \<and>
         status (fst (handleGenerate e s)) =
           Some (error, ''Please enter a description for your image.'') \<and>
         shown (fst (handleGenerate e s)) =
           shown s @ [(error, ''Please enter a description for your image.'')]"
  using assms by (simp add: handleGenerate_def showStatus_def)

theorem empty_prompt_fails_witness:
  "trim (st_prompt (initial\<lparr>st_prompt := ''   ''\<rparr>)) = [] \<and>
   snd (handleGenerate \<lparr>crypto = None, now = (\<lambda>k. 0)\<rparr> (initial\<lparr>st_prompt := ''   ''\<rparr>)) =
   Returned \<and>
   isGenerating
     (fst (handleGenerate \<lparr>crypto = None, now = (\<lambda>k. 0)\<rparr> (initial\<lparr>st_prompt := ''   ''\<rparr>))) =
   False \<and>
   status (fst (handleGenerate \<lparr>crypto = None, now = (\<lambda>k. 0)\<rparr> (initial\<lparr>st_prompt := ''   ''\<rparr>))) =
   Some (error, ''Please enter a description for your image.'')"
proof -
  have h: "trim (st_prompt (initial\<lparr>st_prompt := ''   ''\<rparr>)) = []"
    by (simp add: trim_spaces)
  show ?thesis
    using h empty_prompt_fails [OF h, of "\<lparr>crypto = None, now = (\<lambda>k. 0)\<rparr>"]
    by (simp add: initial_def)
qed

text \<open>
  Claim C4 says that every call made while generating is a no-op. The empty prompt is
  checked before the guard: such a call, made while generating, shows the error status.
\<close>

theorem reentrant_call_shows_error:
  "isGenerating (initial\<lparr>isGenerating := True\<rparr>) \<and>
   shown (initial\<lparr>isGenerating := True\<rparr>) = [] \<and>
   shown (fst (handleGenerate \<lparr>crypto = None, now = (\<lambda>k. 0)\<rparr> (initial\<lparr>isGenerating := True\<rparr>))) =
     [(error, ''Please enter a description for your image.'')] \<and>
   status (initial\<lparr>isGenerating := True\<rparr>) = None \<and>
   status (fst (handleGenerate \<lparr>crypto = None, now = (\<lambda>k. 0)\<rparr> (initial\<lparr>isGenerating := True\<rparr>))) =
     Some (error, ''Please enter a description for your image.'')"
  by (simp add: initial_def handleGenerate_def showStatus_def trim_empty)

text \<open>
  Claim C4 as amended: a call made while generating, with a prompt that is not empty after
  trimming, is a no-op. The whole state is returned as it was, the record of notifications
  and the scheduled timers included, and the call returns at once: no batch is built.
\<close>

theorem reentrant_call_noop:
  assumes "isGenerating s" and "trim (st_prompt s) \<noteq> []"
  shows "handleGenerate e s = (s, Returned)"
  using assms by (simp add: handleGenerate_def)

theorem reentrant_call_noop_witness:
  "isGenerating (initial\<lparr>st_prompt := ''  a cat '', isGenerating := True\<rparr>) \<and>
   trim (st_prompt (initial\<lparr>st_prompt := ''  a cat '', isGenerating := True\<rparr>)) = ''a cat'' \<and>
   handleGenerate \<lparr>crypto = None, now = (\<lambda>k. 0)\<rparr>
     (initial\<lparr>st_prompt := ''  a cat '', isGenerating := True\<rparr>) =
   (initial\<lparr>st_prompt := ''  a cat '', isGenerating := True\<rparr>, Returned)"
proof -
  have g: "isGenerating (initial\<lparr>st_prompt := ''  a cat '', isGenerating := True\<rparr>)"
    by simp
  have t: "trim (st_prompt (initial\<lparr>st_prompt := ''  a cat '', isGenerating := True\<rparr>)) = ''a cat''"
    by (simp add: trim_padded_cat)
  then have n: "trim (st_prompt (initial\<lparr>st_prompt := ''  a cat '', isGenerating := True\<rparr>)) \<noteq> []"
    by simp
  show ?thesis
    using g t reentrant_call_noop [OF g n, of "\<lparr>crypto = None, now = (\<lambda>k. 0)\<rparr>"]
    by simp
qed






text \<open>
  Claim C10: when the prompt is empty after trimming, the call leaves the list of images,
  \<open>isGenerating\<close> and the viewer (\<open>modalUrl\<close>, \<open>modalPrompt\<close>) as they were and returns at
  once, with no batch. And whenever a call does change the list of images, it is a call
  that began a new cycle: the prompt was valid, the component was not generating, it now
  is, and the call did not return at once; unless the prompt has a lone surrogate, a batch
  is under way.
\<close>

theorem failed_validation_keeps_results:
  "(trim (st_prompt s) = [] \<longrightarrow>
      snd (handleGenerate e s) = Returned \<and>
      images (fst (handleGenerate e s)) = images s \<and>
      isGenerating (fst (handleGenerate e s)) = isGenerating s \<and>
      modalUrl (fst (handleGenerate e s)) = modalUrl s \<and>
      modalPrompt (fst (handleGenerate e s)) = modalPrompt s) \<and>
   (images (fst (handleGenerate e s)) \<noteq> images s \<longrightarrow>
      trim (st_prompt s) \<noteq> [] \<and> \<not> isGenerating s \<and>
      isGenerating (fst (handleGenerate e s)) \<and> snd (handleGenerate e s) \<noteq> Returned \<and>
      (\<not> lone_surrogate (st_prompt s) \<longrightarrow>
         (\<exists>batch. snd (handleGenerate e s) = Awaiting batch)))"
proof (intro conjI impI)
  assume c: "images (fst (handleGenerate e s)) \<noteq> images s"
  then show v: "trim (st_prompt s) \<noteq> []" and g: "\<not> isGenerating s"
    by (auto simp: handleGenerate_def showStatus_def Let_def split: if_splits)
  from c show "isGenerating (fst (handleGenerate e s))"
    and "snd (handleGenerate e s) \<noteq> Returned"
    by (auto simp: handleGenerate_def showStatus_def Let_def split: if_splits sum.splits)
  assume "\<not> lone_surrogate (st_prompt s)"
  then have "\<not> lone_surrogate (trim (st_prompt s))" by (auto dest: lone_surrogate_trim)
  with g v handleGenerate_starts [of s e]
  show "\<exists>batch. snd (handleGenerate e s) = Awaiting batch" by auto
qed (simp_all add: handleGenerate_def showStatus_def)

theorem failed_validation_keeps_results_witness:
  "(let shown_image =
          \<lparr>width = Num 512, height = Num 512, url = ''u'', prompt = ''a cat'', style = realistic,
           resolution = R512x512, quality = standard, seed = Num 7\<rparr>;
        s = openModal ''u'' ''a cat'' (initial\<lparr>images := [shown_image]\<rparr>);
        s' = fst (handleGenerate \<lparr>crypto = None, now = (\<lambda>k. 0)\<rparr> s);
        t = initial\<lparr>st_prompt := ''a cat'', images := [shown_image]\<rparr>;
        t' = fst (handleGenerate \<lparr>crypto = None, now = (\<lambda>k. 0)\<rparr> t)
    in trim (st_prompt s) = [] \<and> images s' = [shown_image] \<and> modalUrl s' = Some ''u'' \<and>
       modalPrompt s' = ''a cat'' \<and> isGenerating s' = False \<and>
       images t' \<noteq> images t \<and> \<not> lone_surrogate (st_prompt t) \<and> isGenerating t' \<and>
       (\<exists>batch. snd (handleGenerate \<lparr>crypto = None, now = (\<lambda>k. 0)\<rparr> t) = Awaiting batch))"
proof -
  let ?img = "\<lparr>width = Num 512, height = Num 512, url = ''u'', prompt = ''a cat'',
      style = realistic, resolution = R512x512, quality = standard, seed = Num 7\<rparr>"
  let ?e = "\<lparr>crypto = None, now = (\<lambda>k. 0)\<rparr>"
  let ?s = "openModal ''u'' ''a cat'' (initial\<lparr>images := [?img]\<rparr>)"
  let ?t = "initial\<lparr>st_prompt := ''a cat'', images := [?img]\<rparr>"
  have h: "trim (st_prompt ?s) = []"
    by (simp add: openModal_def initial_def trim_empty)
  have 1: "images (fst (handleGenerate ?e ?s)) = [?img] \<and>
      modalUrl (fst (handleGenerate ?e ?s)) = Some ''u'' \<and>
      modalPrompt (fst (handleGenerate ?e ?s)) = ''a cat'' \<and>
      isGenerating (fst (handleGenerate ?e ?s)) = False"
    using h failed_validation_keeps_results [of ?s ?e]
    by (simp add: openModal_def initial_def)
  have "trim (st_prompt ?t) = ''a cat''" and "\<not> isGenerating ?t"
    by (simp_all add: trim_a_cat initial_def)
  with handleGenerate_starts [of ?t ?e] not_lone_a_cat
  have "images (fst (handleGenerate ?e ?t)) = []" by (auto simp: showStatus_def)
  then have c: "images (fst (handleGenerate ?e ?t)) \<noteq> images ?t" by simp
  have n: "\<not> lone_surrogate (st_prompt ?t)" by simp
  from c n failed_validation_keeps_results [of ?t ?e]
  have 2: "isGenerating (fst (handleGenerate ?e ?t)) \<and>
      (\<exists>batch. snd (handleGenerate ?e ?t) = Awaiting batch)"
    by blast
  from h 1 c n 2 show ?thesis by (simp only: Let_def) blast
qed

subsection \<open>Resolution tokens\<close>

lemma split_from_no_sep: "sep \<notin> set s \<Longrightarrow> split_from sep cur s = [cur @ s]"
  by (induction s arbitrary: cur) auto

lemma split_from_append:
  "sep \<notin> set a \<Longrightarrow> split_from sep cur (a @ sep # b) = (cur @ a) # split_from sep [] b"
  by (induction a arbitrary: cur) auto

lemma digit_not_x: "digit c \<Longrightarrow> c \<noteq> CHR ''x''"
  by (auto simp: digit_def)

lemma split_token:
  assumes "list_all digit W" and "list_all digit H"
  shows "split CHR ''x'' (W @ CHR ''x'' # H) = [W, H]"
proof -
  from assms have "CHR ''x'' \<notin> set W" "CHR ''x'' \<notin> set H"
    by (auto simp: list_all_iff dest: digit_not_x)
  then show ?thesis
    by (simp add: split_def split_from_append split_from_no_sep)
qed

lemma find_prefix_None:
  assumes "\<forall>p \<in> set ps. p \<noteq> [] \<longrightarrow> hd p \<noteq> c"
  shows "find (\<lambda>p. p \<noteq> [] \<and> prefix p (c # cs)) ps = None"
proof -
  have "\<not> (p \<noteq> [] \<and> prefix p (c # cs))" if "p \<in> set ps" for p
  proof (cases p)
    case Nil
    then show ?thesis by simp
  next
    case (Cons a as)
    with that assms have "a \<noteq> c" by auto
    with Cons show ?thesis by simp
  qed
  then show ?thesis by (simp add: find_None_iff)
qed

lemma whitespace_heads: "\<forall>p \<in> set whitespace. p \<noteq> [] \<longrightarrow> \<not> digit (hd p)"
  by (simp add: whitespace_def digit_def)

lemma whitespace_lasts: "\<forall>p \<in> set (map rev whitespace). p \<noteq> [] \<longrightarrow> \<not> digit (hd p)"
  by (simp add: whitespace_def digit_def)

lemma no_whitespace_before_digit:
  "digit c \<Longrightarrow> find (\<lambda>p. p \<noteq> [] \<and> prefix p (c # cs)) whitespace = None"
  using whitespace_heads by (intro find_prefix_None) blast

lemma no_whitespace_after_digit:
  "digit c \<Longrightarrow> find (\<lambda>p. p \<noteq> [] \<and> prefix p (c # cs)) (map rev whitespace) = None"
  using whitespace_lasts by (intro find_prefix_None) blast

lemma strip_prefixes_None:
  "find (\<lambda>p. p \<noteq> [] \<and> prefix p s) ps = None \<Longrightarrow> strip_prefixes ps s = s"
  by (subst strip_prefixes.simps) simp

lemma trimStart_digit: "digit c \<Longrightarrow> trimStart (c # cs) = c # cs"
  by (simp add: trimStart_def strip_prefixes_None no_whitespace_before_digit)

lemma trimEnd_digit: "digit c \<Longrightarrow> trimEnd (cs @ [c]) = cs @ [c]"
  by (simp add: trimEnd_def strip_prefixes_None no_whitespace_after_digit)

lemma trim_decimal:
  assumes "decimal z"
  shows "trim z = z" and "trimStart z = z"
proof -
  from assms obtain c cs where z: "z = c # cs" and c: "digit c"
    by (cases z) (auto simp: decimal_def)
  then show s: "trimStart z = z" by (simp add: trimStart_digit)
  from assms obtain d ds where z': "z = ds @ [d]" and d: "digit d"
    by (cases z rule: rev_cases) (auto simp: decimal_def)
  with s show "trim z = z" by (simp add: trim_def trimEnd_digit)
qed

lemma digit_not_sign: "digit c \<Longrightarrow> c \<noteq> CHR ''-'' \<and> c \<noteq> CHR ''+''"
  by (auto simp: digit_def)

lemma parseInt_decimal:
  assumes "decimal z"
  shows "parseInt z = toNumber (int (decimal_value z))"
proof -
  from assms obtain c cs where z: "z = c # cs" and c: "digit c"
    by (cases z) (auto simp: decimal_def)
  from assms have tw: "takeWhile digit z = z"
    by (simp add: decimal_def list_all_iff)
  from assms have ts: "trimStart z = z"
    by (rule trim_decimal(2))
  have u: "(case z of [] \<Rightarrow> z | a # as \<Rightarrow> if a = CHR ''-'' \<or> a = CHR ''+'' then as else z) = z"
    using digit_not_sign [OF c] by (simp add: z)
  show ?thesis
    unfolding parseInt_def Let_def ts u tw using z digit_not_sign [OF c] by simp
qed

lemma bit_length_power: "bit_length (2 ^ k) = Suc k"
proof (induction k)
  case 0
  show ?case by (simp add: bit_length.simps)
next
  case (Suc k)
  then show ?case by (subst bit_length.simps) simp
qed

lemma round53_top: "round53 (2 ^ 53) = 2 ^ 53"
proof -
  have "bit_length (2 ^ 53) = 54"
    using bit_length_power [of 53] by (simp)
  then show ?thesis
    by (simp add: round53_def Let_def)
qed


lemma toNumber_exact_le:
  assumes "\<bar>n\<bar> \<le> 2 ^ 53"
  shows "toNumber n = Num n"
proof (cases "\<bar>n\<bar> < 2 ^ 53")
  case True
  then show ?thesis by (rule toNumber_exact)
next
  case False
  with assms have a: "\<bar>n\<bar> = 2 ^ 53" by simp
  then have m: "nat \<bar>n\<bar> = 2 ^ 53" by simp
  have "bit_length (2 ^ 53) = 54"
    using bit_length_power [of 53] by (simp)
  moreover have "sgn n * int (nat \<bar>n\<bar>) = n" by (simp add: mult_sgn_abs)
  ultimately show ?thesis
    using m round53_top by (simp add: toNumber_def)
qed

text \<open>
  Claim C5 as amended: for a token \<^verbatim>\<open>WxH\<close> whose two sides are non-empty strings of decimal
  digits that denote integers of at most \<open>2 ^ 53\<close>, \<^verbatim>\<open>parseResolution\<close> returns exactly those
  two integers as width and height; \<^verbatim>\<open>1024x768\<close> gives 1024 and 768.
\<close>

theorem parseResolution_exact:
  assumes "decimal W" and "decimal H"
    and "decimal_value W \<le> 2 ^ 53" and "decimal_value H \<le> 2 ^ 53"
  shows "parseResolution (W @ ''x'' @ H) =
           \<lparr>width = Num (int (decimal_value W)), height = Num (int (decimal_value H))\<rparr>"
proof -
  from assms(1,2) have "split CHR ''x'' (W @ ''x'' @ H) = [W, H]"
    by (simp add: split_token decimal_def)
  moreover from assms(1,3) have "parseInt (trim W) = Num (int (decimal_value W))"
    by (simp add: trim_decimal(1) parseInt_decimal toNumber_exact_le)
  moreover from assms(2,4) have "parseInt (trim H) = Num (int (decimal_value H))"
    by (simp add: trim_decimal(1) parseInt_decimal toNumber_exact_le)
  ultimately show ?thesis
    by (simp add: parseResolution_def element_def)
qed

lemma decimal_1024: "decimal ''1024'' \<and> decimal_value ''1024'' = 1024"
  by (simp add: decimal_def digit_def decimal_value_def digit_value_def)

lemma decimal_768: "decimal ''768'' \<and> decimal_value ''768'' = 768"
  by (simp add: decimal_def digit_def decimal_value_def digit_value_def)

theorem parseResolution_exact_witness:
  "decimal ''1024'' \<and> decimal ''768'' \<and> decimal_value ''1024'' = 1024 \<and>
   decimal_value ''768'' = 768 \<and>
   parseResolution ''1024x768'' = \<lparr>width = Num 1024, height = Num 768\<rparr>"
proof -
  have w: "decimal ''1024''" and h: "decimal ''768''"
    using decimal_1024 decimal_768 by simp_all
  have wv: "decimal_value ''1024'' \<le> 2 ^ 53" and hv: "decimal_value ''768'' \<le> 2 ^ 53"
    using decimal_1024 decimal_768 by simp_all
  show ?thesis
    using parseResolution_exact [OF w h wv hv] decimal_1024 decimal_768 by simp
qed

lemma bit_length_gt: "2 ^ k \<le> n \<Longrightarrow> k < bit_length n"
proof (induction k arbitrary: n)
  case 0
  then show ?case by (subst bit_length.simps) simp
next
  case (Suc k)
  then have "2 ^ k \<le> n div 2" by simp
  then have "k < bit_length (n div 2)" by (rule Suc.IH)
  moreover have "n \<noteq> 0"
  proof
    assume "n = 0"
    with Suc.prems show False by simp
  qed
  ultimately show ?case by (subst bit_length.simps) simp
qed

lemma bit_length_54: "bit_length 9007199254740993 = 54"
proof -
  have "bit_length 9007199254740993 \<le> 54" by (rule bit_length_le) simp
  moreover have "53 < bit_length 9007199254740993" by (rule bit_length_gt) simp
  ultimately show ?thesis by simp
qed

lemma round53_tie: "round53 9007199254740993 = 9007199254740992"
  by (simp add: round53_def bit_length_54 Let_def)

lemma toNumber_tie: "toNumber 9007199254740993 = Num 9007199254740992"
proof -
  have "bit_length 9007199254740992 \<le> 54" by (rule bit_length_le) simp
  then have "\<not> 1024 < bit_length 9007199254740992" by simp
  then show ?thesis
    by (simp add: toNumber_def round53_tie)
qed

lemma decimal_tie:
  "decimal ''9007199254740993'' \<and> decimal_value ''9007199254740993'' = 9007199254740993"
  by (simp add: decimal_def digit_def decimal_value_def digit_value_def)

lemma decimal_1: "decimal ''1'' \<and> decimal_value ''1'' = 1"
  by (simp add: decimal_def digit_def decimal_value_def digit_value_def)

text \<open>
  Claim C5 says this of every well-formed token. The result is a double: the width of
  \<^verbatim>\<open>9007199254740993x1\<close>, which is \<open>2 ^ 53 + 1\<close>, comes back as \<open>2 ^ 53\<close>.
\<close>

theorem parseResolution_rounds:
  "decimal ''9007199254740993'' \<and> decimal ''1'' \<and>
   decimal_value ''9007199254740993'' = 9007199254740993 \<and>
   parseResolution ''9007199254740993x1'' = \<lparr>width = Num 9007199254740992, height = Num 1\<rparr>"
proof -
  have "split CHR ''x'' (''9007199254740993'' @ CHR ''x'' # ''1'') = [''9007199254740993'', ''1'']"
    using decimal_tie decimal_1 by (intro split_token) (simp_all add: decimal_def)
  then have s: "split CHR ''x'' ''9007199254740993x1'' = [''9007199254740993'', ''1'']"
    by simp
  have w: "parseInt (trim ''9007199254740993'') = Num 9007199254740992"
    using decimal_tie by (simp add: trim_decimal(1) parseInt_decimal toNumber_tie)
  have h: "parseInt (trim ''1'') = Num 1"
    using decimal_1 by (simp add: trim_decimal(1) parseInt_decimal toNumber_exact)
  have "parseResolution ''9007199254740993x1'' = \<lparr>width = Num 9007199254740992, height = Num 1\<rparr>"
    unfolding parseResolution_def s using w h by (simp add: element_def)
  with decimal_tie decimal_1 show ?thesis by simp
qed


subsection \<open>The address\<close>

lemma below_16:
  "k < (16::nat) \<Longrightarrow>
   k = 0 \<or> k = 1 \<or> k = 2 \<or> k = 3 \<or> k = 4 \<or> k = 5 \<or> k = 6 \<or> k = 7 \<or>
   k = 8 \<or> k = 9 \<or> k = 10 \<or> k = 11 \<or> k = 12 \<or> k = 13 \<or> k = 14 \<or> k = 15"
  by arith

lemma hex_value_digit: "k < 16 \<Longrightarrow> hex_value (''0123456789ABCDEF'' ! k) = Some k"
  by (drule below_16, elim disjE) (simp_all add: hex_value_def)

lemma high_nibble: "of_char c div 16 < (16::nat)"
  using nat_of_char_less_256 [of c] by (simp add: div_less_iff_less_mult)

lemma hex_digit_plain:
  "k < 16 \<Longrightarrow> ''0123456789ABCDEF'' ! k \<in> set ''0123456789ABCDEF''"
  by (rule nth_mem) simp

lemma percent_byte_decode:
  "percent_decode (percent_byte c @ rest) = map_option ((#) c) (percent_decode rest)"
proof -
  have hi: "of_char c div 16 < (16::nat)" by (rule high_nibble)
  have lo: "of_char c mod 16 < (16::nat)" by simp
  have "char_of (16 * (of_char c div 16) + of_char c mod 16 :: nat) = c"
    by simp
  then show ?thesis
    by (simp add: percent_byte_def hex_value_digit [OF hi] hex_value_digit [OF lo])
qed

lemma unreserved_not_percent: "uri_unreserved c \<Longrightarrow> c \<noteq> CHR ''%''"
  by (auto simp: uri_unreserved_def alnum_def lower_def upper_def digit_def)

lemma decode_encode: "percent_decode (uri_escape p) = Some p"
proof (induction p)
  case Nil
  show ?case by (simp add: uri_escape_def)
next
  case (Cons c p)
  show ?case
  proof (cases "uri_unreserved c")
    case True
    with Cons unreserved_not_percent [OF True] show ?thesis
      by (simp add: uri_escape_def)
  next
    case False
    with Cons percent_byte_decode [of c "uri_escape p"] show ?thesis
      by (simp add: uri_escape_def)
  qed
qed

lemma unreserved_no_delimiter: "uri_unreserved c \<Longrightarrow> c \<notin> set ''?&=#/''"
  by (auto simp: uri_unreserved_def alnum_def lower_def upper_def digit_def)

lemma percent_byte_no_delimiter: "set (percent_byte c) \<inter> set ''?&=#/'' = {}"
proof -
  have hi: "of_char c div 16 < (16::nat)" by (rule high_nibble)
  have lo: "of_char c mod 16 < (16::nat)" by simp
  have "set (percent_byte c) \<subseteq> set ''%0123456789ABCDEF''"
    using hex_digit_plain [OF hi] hex_digit_plain [OF lo] by (simp add: percent_byte_def)
  moreover have "set ''%0123456789ABCDEF'' \<inter> set ''?&=#/'' = {}" by simp
  ultimately show ?thesis by blast
qed

lemma encode_no_delimiter: "set (uri_escape p) \<inter> set ''?&=#/'' = {}"
proof (induction p)
  case Nil
  show ?case by (simp add: uri_escape_def)
next
  case (Cons c p)
  have "set (uri_escape (c # p)) =
        set (if uri_unreserved c then [c] else percent_byte c) \<union> set (uri_escape p)"
    by (simp add: uri_escape_def)
  moreover have "set (if uri_unreserved c then [c] else percent_byte c) \<inter> set ''?&=#/'' = {}"
    using unreserved_no_delimiter [of c] percent_byte_no_delimiter [of c] by (cases "uri_unreserved c") simp_all
  ultimately show ?case using Cons by blast
qed



text \<open>What \<^verbatim>\<open>String\<close> prints is ASCII and not empty.\<close>

lemma ascii_append: "ascii (a @ b) = (ascii a \<and> ascii b)"
  by (auto simp: ascii_def)

lemma below_10:
  "k < (10::nat) \<Longrightarrow>
   k = 0 \<or> k = 1 \<or> k = 2 \<or> k = 3 \<or> k = 4 \<or> k = 5 \<or> k = 6 \<or> k = 7 \<or> k = 8 \<or> k = 9"
  by arith

lemma ascii_digit: "k < 10 \<Longrightarrow> ascii [''0123456789'' ! k]"
  by (drule below_10, elim disjE) (simp_all add: ascii_def)

lemma ascii_digits10: "ascii (digits10 n)"
proof (induction n rule: digits10.induct)
  case (1 n)
  show ?case
  proof (cases "n < 10")
    case True
    then show ?thesis by (subst digits10.simps) (simp add: ascii_digit)
  next
    case False
    have "ascii [''0123456789'' ! (n mod 10)]" by (rule ascii_digit) simp
    with False 1 show ?thesis by (subst digits10.simps) (simp add: ascii_append)
  qed
qed

lemma digits10_nonempty: "digits10 n \<noteq> []"
  by (subst digits10.simps) simp

lemma ascii_sublist: "ascii s \<Longrightarrow> ascii (take n s) \<and> ascii (drop n s)"
  by (auto simp: ascii_def dest: in_set_takeD in_set_dropD)

lemma ascii_decimal_of: "ascii (decimal_of x)"
proof -
  have "ascii (exponential v)" for v
    using ascii_sublist [OF ascii_digits10, of 1 "strip_zeros v"] ascii_digits10
    by (simp add: exponential_def Let_def ascii_append) (simp add: ascii_def)
  then show ?thesis by (simp add: decimal_of_def Let_def ascii_digits10)
qed

lemma decimal_of_nonempty: "decimal_of x \<noteq> []"
  by (simp add: decimal_of_def exponential_def Let_def digits10_nonempty)

lemma ascii_String: "ascii (String x)"
  by (cases x) (simp_all add: ascii_append ascii_decimal_of, simp_all add: ascii_def)

lemma String_nonempty: "String x \<noteq> []"
  by (cases x) (simp_all add: decimal_of_nonempty)

lemma toUSVString_ascii: "ascii s \<Longrightarrow> toUSVString s = s"
proof (induction s rule: toUSVString.induct)
  case (1 a b c cs)
  then have "a \<noteq> CHR 0xED" and "ascii (b # c # cs)"
    by (auto simp: ascii_def dest: ascii_char)
  with 1 show ?case by simp
qed simp_all

lemma toUSVString_empty: "(toUSVString s = []) = (s = [])"
  by (induction s rule: toUSVString.induct) simp_all

lemma searchParams_list:
  "searchParams w h sd model enhance =
     [(''width'', String w), (''height'', String h), (''seed'', String sd), (''nologo'', ''true'')] @
     (case model of Some m \<Rightarrow> if m \<noteq> [] then [(''model'', toUSVString m)] else [] | None \<Rightarrow> []) @
     (if enhance = Some True then [(''enhance'', ''true'')] else [])"
proof -
  have n: "toUSVString ''width'' = ''width''" "toUSVString ''height'' = ''height''"
    "toUSVString ''seed'' = ''seed''" "toUSVString ''nologo'' = ''nologo''"
    "toUSVString ''model'' = ''model''" "toUSVString ''enhance'' = ''enhance''"
    "toUSVString ''true'' = ''true''"
    by simp_all
  show ?thesis
    by (simp add: searchParams_def new_URLSearchParams_def set_param_def n
        toUSVString_ascii [OF ascii_String] split: option.split)
qed

text \<open>Serialising a list of parameters and parsing the result gives the list back.\<close>

lemma form_safe_plain:
  "alnum c \<or> c \<in> set ''*-._'' \<Longrightarrow> c \<noteq> CHR ''+'' \<and> c \<noteq> CHR ''%'' \<and> c \<notin> set ''&=#?''"
  by (auto simp: alnum_def lower_def upper_def digit_def)

lemma percent_byte_form_decode:
  "form_decode (percent_byte c @ rest) = c # form_decode rest"
proof -
  have hi: "of_char c div 16 < (16::nat)" by (rule high_nibble)
  have lo: "of_char c mod 16 < (16::nat)" by simp
  have "char_of (16 * (of_char c div 16) + of_char c mod 16 :: nat) = c"
    by simp
  then show ?thesis
    by (simp add: percent_byte_def hex_value_digit [OF hi] hex_value_digit [OF lo])
qed

lemma form_encode_Cons:
  "form_encode (c # s) =
     (if c = CHR '' '' then ''+''
      else if alnum c \<or> c \<in> set ''*-._'' then [c] else percent_byte c) @ form_encode s"
  by (simp add: form_encode_def)

lemma form_decode_encode: "form_decode (form_encode s) = s"
proof (induction s)
  case Nil
  show ?case by (simp add: form_encode_def)
next
  case (Cons c s)
  show ?case
  proof (cases "c = CHR '' ''")
    case True
    with Cons show ?thesis by (simp add: form_encode_Cons)
  next
    case False
    show ?thesis
    proof (cases "alnum c \<or> c \<in> set ''*-._''")
      case True
      with False Cons form_safe_plain [OF True] show ?thesis
        by (simp only: form_encode_Cons if_True if_False append_Cons append_Nil form_decode.simps)
    next
      case plain: False
      with False Cons show ?thesis
        by (simp only: form_encode_Cons if_False percent_byte_form_decode)
    qed
  qed
qed

lemma percent_byte_no_separator: "set (percent_byte c) \<inter> set ''&=#?'' = {}"
proof -
  have hi: "of_char c div 16 < (16::nat)" by (rule high_nibble)
  have lo: "of_char c mod 16 < (16::nat)" by simp
  have "set (percent_byte c) \<subseteq> set ''%0123456789ABCDEF''"
    using hex_digit_plain [OF hi] hex_digit_plain [OF lo] by (simp add: percent_byte_def)
  moreover have "set ''%0123456789ABCDEF'' \<inter> set ''&=#?'' = {}" by simp
  ultimately show ?thesis by blast
qed

lemma form_encode_no_separator: "set (form_encode s) \<inter> set ''&=#?'' = {}"
proof (induction s)
  case Nil
  show ?case by (simp add: form_encode_def)
next
  case (Cons c s)
  have "set (if c = CHR '' '' then ''+''
             else if alnum c \<or> c \<in> set ''*-._'' then [c] else percent_byte c) \<inter>
        set ''&=#?'' = {}"
    using form_safe_plain [of c] percent_byte_no_separator [of c] by auto
  with Cons show ?case by (simp only: form_encode_Cons set_append) blast
qed

lemma parse_pair_encoded: "parse_pair (form_encode k @ CHR ''='' # form_encode v) = (k, v)"
proof -
  have "\<forall>c \<in> set (form_encode k). c \<noteq> CHR ''=''"
    using form_encode_no_separator [of k] by auto
  then have "takeWhile (\<lambda>c. c \<noteq> CHR ''='') (form_encode k @ CHR ''='' # form_encode v) =
      form_encode k"
    and "dropWhile (\<lambda>c. c \<noteq> CHR ''='') (form_encode k @ CHR ''='' # form_encode v) =
         CHR ''='' # form_encode v"
    by simp_all
  then show ?thesis by (simp add: parse_pair_def form_decode_encode)
qed

lemma split_join:
  assumes "\<forall>x \<in> set xs. sep \<notin> set x" and "xs \<noteq> []"
  shows "split sep (join [sep] xs) = xs"
  using assms
proof (induction xs)
  case Nil
  then show ?case by simp
next
  case (Cons x xs)
  show ?case
  proof (cases xs)
    case Nil
    with Cons.prems show ?thesis by (simp add: split_def split_from_no_sep)
  next
    case (Cons y zs)
    with Cons.IH Cons.prems have "split_from sep [] (join [sep] (y # zs)) = y # zs"
      by (simp add: split_def)
    with Cons Cons.prems show ?thesis by (simp add: split_def split_from_append)
  qed
qed

lemma parse_query_toString: "parse_query (toString ps) = ps"
proof (cases ps)
  case Nil
  then show ?thesis by (simp add: toString_def parse_query_def split_def)
next
  case (Cons p ps')
  let ?enc = "\<lambda>(k, v). form_encode k @ ''='' @ form_encode v"
  have a: "\<forall>x \<in> set (map ?enc ps). CHR ''&'' \<notin> set x"
    using form_encode_no_separator by fastforce
  have b: "\<forall>x \<in> set (map ?enc ps). x \<noteq> []" by auto
  from Cons have "map ?enc ps \<noteq> []" by simp
  with a have "split CHR ''&'' (toString ps) = map ?enc ps"
    unfolding toString_def by (intro split_join) simp_all
  moreover from b have "filter (\<lambda>p. p \<noteq> []) (map ?enc ps) = map ?enc ps" by simp
  moreover have "map parse_pair (map ?enc ps) = ps"
    by (induction ps) (auto simp: parse_pair_encoded)
  ultimately show ?thesis by (simp add: parse_query_def)
qed

lemma set_join: "c \<in> set (join sep xs) \<Longrightarrow> c \<in> set sep \<or> (\<exists>x \<in> set xs. c \<in> set x)"
  by (induction sep xs rule: join.induct) auto

lemma toString_no_hash: "CHR ''#'' \<notin> set (toString ps)"
proof
  assume "CHR ''#'' \<in> set (toString ps)"
  then obtain k v where "(k, v) \<in> set ps"
    and "CHR ''#'' \<in> set (form_encode k @ ''='' @ form_encode v)"
    unfolding toString_def by (auto dest!: set_join)
  with form_encode_no_separator [of k] form_encode_no_separator [of v] show False by auto
qed

lemma query_of_address:
  assumes "CHR ''?'' \<notin> set a"
  shows "query_of (a @ ''?'' @ toString ps) = toString ps"
proof -
  from assms have "\<forall>c \<in> set a. c \<noteq> CHR ''?''" by auto
  then have "dropWhile (\<lambda>c. c \<noteq> CHR ''?'') (a @ ''?'' @ toString ps) = ''?'' @ toString ps"
    by simp
  moreover have "takeWhile (\<lambda>c. c \<noteq> CHR ''#'') (toString ps) = toString ps"
    using toString_no_hash [of ps] by (auto simp: takeWhile_eq_all_conv)
  ultimately show ?thesis by (simp add: query_of_def)
qed

lemma form_encode_names:
  "form_encode ''width'' = ''width''" "form_encode ''height'' = ''height''"
  "form_encode ''seed'' = ''seed''" "form_encode ''nologo'' = ''nologo''"
  "form_encode ''model'' = ''model''" "form_encode ''enhance'' = ''enhance''"
  "form_encode ''true'' = ''true''"
  by (simp_all add: form_encode_def alnum_def lower_def)

lemma toString_searchParams:
  "toString (searchParams w h sd model enhance) =
     ''width='' @ form_encode (String w) @ ''&height='' @ form_encode (String h) @
     ''&seed='' @ form_encode (String sd) @ ''&nologo=true'' @
     (case model of
        Some m \<Rightarrow> if m \<noteq> [] then ''&model='' @ form_encode (toUSVString m) else []
      | None \<Rightarrow> []) @
     (if enhance = Some True then ''&enhance=true'' else [])"
  by (simp add: searchParams_list toString_def form_encode_names split: option.split)

lemma address_query:
  "query_of (''https://image.pollinations.ai/prompt/'' @ uri_escape p @ ''?'' @ toString ps) =
   toString ps"
proof -
  have "CHR ''?'' \<notin> set (''https://image.pollinations.ai/prompt/'' @ uri_escape p)"
    using encode_no_delimiter [of p] by auto
  from query_of_address [OF this, of ps] show ?thesis by simp
qed

text \<open>
  Claim C7 says that \<^verbatim>\<open>buildPollinationsUrl\<close> returns an address for every input. For a
  prompt with a lone surrogate it throws \<^verbatim>\<open>URIError\<close>.
\<close>

theorem buildPollinationsUrl_throws_URIError:
  "buildPollinationsUrl [CHR 0xED, CHR 0xA0, CHR 0x80] (Num 256) (Num 256) (Num 123)
     (Some ''flux'') None = Inl URIError"
  by (simp add: buildPollinationsUrl_def encodeURIComponent_def surrogate_tail_def)

text \<open>
  Claim C7 as amended: for every input whose prompt has no lone surrogate,
  \<^verbatim>\<open>buildPollinationsUrl\<close> returns an address: \<^verbatim>\<open>https://image.pollinations.ai/prompt/\<close>,
  the percent-encoded prompt (decoding it gives the prompt), \<^verbatim>\<open>?\<close> and the query. The query, as it is written and as its
  receiver parses it, holds \<^verbatim>\<open>width\<close>, \<^verbatim>\<open>height\<close>, \<^verbatim>\<open>seed\<close> and \<^verbatim>\<open>nologo=true\<close>, in this
  order; \<^verbatim>\<open>model\<close> follows exactly when a non-empty model is given, \<^verbatim>\<open>enhance=true\<close>
  exactly when \<^verbatim>\<open>enhance\<close> is true, and nothing else. No parameter has an empty value, and
  the two flags are only ever sent as \<^verbatim>\<open>true\<close>.
\<close>

theorem buildPollinationsUrl_form:
  assumes "\<not> lone_surrogate p"
  shows "\<exists>u segment.
     buildPollinationsUrl p w h sd model enhance = Inr u \<and>
     encodeURIComponent p = Inr segment \<and> percent_decode segment = Some p \<and>
     u = ''https://image.pollinations.ai/prompt/'' @ segment @ ''?'' @ query_of u \<and>
     query_of u =
       ''width='' @ form_encode (String w) @ ''&height='' @ form_encode (String h) @
       ''&seed='' @ form_encode (String sd) @ ''&nologo=true'' @
       (case model of
          Some m \<Rightarrow> if m \<noteq> [] then ''&model='' @ form_encode (toUSVString m) else []
        | None \<Rightarrow> []) @
       (if enhance = Some True then ''&enhance=true'' else []) \<and>
     parse_query (query_of u) =
       [(''width'', String w), (''height'', String h), (''seed'', String sd),
        (''nologo'', ''true'')] @
       (case model of Some m \<Rightarrow> if m \<noteq> [] then [(''model'', toUSVString m)] else [] | None \<Rightarrow> []) @
       (if enhance = Some True then [(''enhance'', ''true'')] else []) \<and>
     (''model'' \<in> fst ` set (parse_query (query_of u))) = (\<exists>m. model = Some m \<and> m \<noteq> []) \<and>
     (''enhance'' \<in> fst ` set (parse_query (query_of u))) = (enhance = Some True) \<and>
     (\<forall>(k, v) \<in> set (parse_query (query_of u)).
        v \<noteq> [] \<and> (k = ''enhance'' \<or> k = ''nologo'' \<longrightarrow> v = ''true''))"
proof -
  let ?ps = "searchParams w h sd model enhance"
  let ?u = "''https://image.pollinations.ai/prompt/'' @ uri_escape p @ ''?'' @ toString ?ps"
  from assms have b: "buildPollinationsUrl p w h sd model enhance = Inr ?u"
    by (rule buildPollinationsUrl_returns)
  from assms have s: "encodeURIComponent p = Inr (uri_escape p)"
    by (simp add: encodeURIComponent_def)
  have q: "query_of ?u = toString ?ps" by (rule address_query)
  then have u: "?u = ''https://image.pollinations.ai/prompt/'' @ uri_escape p @ ''?'' @ query_of ?u"
    by simp
  have w: "query_of ?u =
       ''width='' @ form_encode (String w) @ ''&height='' @ form_encode (String h) @
       ''&seed='' @ form_encode (String sd) @ ''&nologo=true'' @
       (case model of
          Some m \<Rightarrow> if m \<noteq> [] then ''&model='' @ form_encode (toUSVString m) else []
        | None \<Rightarrow> []) @
       (if enhance = Some True then ''&enhance=true'' else [])"
    unfolding q by (rule toString_searchParams)
  have "parse_query (query_of ?u) = ?ps" by (simp only: q parse_query_toString)
  then have l: "parse_query (query_of ?u) =
       [(''width'', String w), (''height'', String h), (''seed'', String sd),
        (''nologo'', ''true'')] @
       (case model of Some m \<Rightarrow> if m \<noteq> [] then [(''model'', toUSVString m)] else [] | None \<Rightarrow> []) @
       (if enhance = Some True then [(''enhance'', ''true'')] else [])"
    by (simp only: searchParams_list)
  have m: "(''model'' \<in> fst ` set (parse_query (query_of ?u))) = (\<exists>m. model = Some m \<and> m \<noteq> [])"
    unfolding l by (auto split: option.split)
  have e: "(''enhance'' \<in> fst ` set (parse_query (query_of ?u))) = (enhance = Some True)"
    unfolding l by (auto split: option.split)
  have v: "\<forall>(k, v) \<in> set (parse_query (query_of ?u)).
        v \<noteq> [] \<and> (k = ''enhance'' \<or> k = ''nologo'' \<longrightarrow> v = ''true'')"
    unfolding l by (auto simp: String_nonempty toUSVString_empty split: option.split)
  have d: "percent_decode (uri_escape p) = Some p" by (rule decode_encode)
  from b s d u w l m e v show ?thesis by blast
qed

lemma uri_escape_test_prompt: "uri_escape ''test prompt'' = ''test%20prompt''"
  by (simp add: uri_escape_def uri_unreserved_def alnum_def lower_def upper_def digit_def
      percent_byte_def)

lemma String_256: "String (Num 256) = ''256''" "String (Num 123) = ''123''"
  by (simp_all add: decimal_of_def digits10.simps)

lemma form_encode_256:
  "form_encode ''256'' = ''256''" "form_encode ''123'' = ''123''" "form_encode ''flux'' = ''flux''"
  by (simp_all add: form_encode_def alnum_def lower_def upper_def digit_def)

theorem buildPollinationsUrl_form_witness:
  "\<not> lone_surrogate ''test prompt'' \<and>
   buildPollinationsUrl ''test prompt'' (Num 256) (Num 256) (Num 123) (Some ''flux'') None =
     Inr ''https://image.pollinations.ai/prompt/test%20prompt?width=256&height=256&seed=123&nologo=true&model=flux'' \<and>
   parse_query (query_of
     ''https://image.pollinations.ai/prompt/test%20prompt?width=256&height=256&seed=123&nologo=true&model=flux'') =
     [(''width'', ''256''), (''height'', ''256''), (''seed'', ''123''), (''nologo'', ''true''),
      (''model'', ''flux'')]"
proof -
  have n: "\<not> lone_surrogate ''test prompt''" by simp
  from buildPollinationsUrl_form [OF n, of "Num 256" "Num 256" "Num 123" "Some ''flux''" None]
  obtain u segment where
    b: "buildPollinationsUrl ''test prompt'' (Num 256) (Num 256) (Num 123) (Some ''flux'') None = Inr u"
    and s: "encodeURIComponent ''test prompt'' = Inr segment"
    and u: "u = ''https://image.pollinations.ai/prompt/'' @ segment @ ''?'' @ query_of u"
    and q: "query_of u =
       ''width='' @ form_encode (String (Num 256)) @ ''&height='' @ form_encode (String (Num 256)) @
       ''&seed='' @ form_encode (String (Num 123)) @ ''&nologo=true'' @
       ''&model='' @ form_encode (toUSVString ''flux'') @ []"
    and l: "parse_query (query_of u) =
       [(''width'', String (Num 256)), (''height'', String (Num 256)), (''seed'', String (Num 123)),
        (''nologo'', ''true'')] @ [(''model'', toUSVString ''flux'')] @ []"
    by auto
  from s have "segment = ''test%20prompt''"
    by (simp add: encodeURIComponent_def uri_escape_test_prompt)
  moreover from q have "query_of u = ''width=256&height=256&seed=123&nologo=true&model=flux''"
    by (simp only: String_256 form_encode_256) (simp add: form_encode_256)
  ultimately have v: "u =
    ''https://image.pollinations.ai/prompt/test%20prompt?width=256&height=256&seed=123&nologo=true&model=flux''"
    using u by simp
  from l have "parse_query (query_of u) =
     [(''width'', ''256''), (''height'', ''256''), (''seed'', ''123''), (''nologo'', ''true''),
      (''model'', ''flux'')]"
    by (simp only: String_256) simp
  with n b v show ?thesis by simp
qed

text \<open>
  Claim C8: \<^verbatim>\<open>buildPollinationsUrl\<close> throws only for a prompt with a lone surrogate, and
  returns an address for every other prompt. In the address it returns the prompt is
  encoded once: decoding the path segment once gives the prompt back. The segment contains
  none of \<^verbatim>\<open>? & = # /\<close>, so it ends at the \<^verbatim>\<open>?\<close> the function writes, and what follows that
  \<^verbatim>\<open>?\<close> is the serialised parameter list, in which the prompt does not occur.
\<close>

theorem prompt_segment_safe:
  "case buildPollinationsUrl p w h sd model enhance of
     Inl ex \<Rightarrow> lone_surrogate p
   | Inr u \<Rightarrow>
       encodeURIComponent p = Inr (uri_escape p) \<and>
       u = ''https://image.pollinations.ai/prompt/'' @ uri_escape p @ ''?'' @
           toString (searchParams w h sd model enhance) \<and>
       percent_decode (uri_escape p) = Some p \<and>
       set (uri_escape p) \<inter> set ''?&=#/'' = {} \<and>
       takeWhile (\<lambda>c. c \<noteq> CHR ''?'')
         (drop (length ''https://image.pollinations.ai/prompt/'') u) = uri_escape p \<and>
       drop (length ''https://image.pollinations.ai/prompt/'' + length (uri_escape p) + 1) u =
         toString (searchParams w h sd model enhance)"
proof (cases "lone_surrogate p")
  case True
  then show ?thesis by (simp add: buildPollinationsUrl_throws)
next
  case False
  let ?seg = "uri_escape p"
  let ?q = "toString (searchParams w h sd model enhance)"
  let ?u = "''https://image.pollinations.ai/prompt/'' @ ?seg @ ''?'' @ ?q"
  from False have b: "buildPollinationsUrl p w h sd model enhance = Inr ?u"
    by (rule buildPollinationsUrl_returns)
  from False have e: "encodeURIComponent p = Inr ?seg" by (simp add: encodeURIComponent_def)
  have d: "set ?seg \<inter> set ''?&=#/'' = {}" by (rule encode_no_delimiter)
  then have "\<forall>c \<in> set ?seg. c \<noteq> CHR ''?''" by auto
  then have "takeWhile (\<lambda>c. c \<noteq> CHR ''?'') (?seg @ ''?'' @ ?q) = ?seg"
    by simp
  then have t: "takeWhile (\<lambda>c. c \<noteq> CHR ''?'')
     (drop (length ''https://image.pollinations.ai/prompt/'') ?u) = ?seg"
    by simp
  have r: "drop (length ''https://image.pollinations.ai/prompt/'' + length ?seg + 1) ?u = ?q"
    by simp
  from e decode_encode [of p] d t r have
    "encodeURIComponent p = Inr ?seg \<and> ?u = ?u \<and> percent_decode ?seg = Some p \<and>
     set ?seg \<inter> set ''?&=#/'' = {} \<and>
     takeWhile (\<lambda>c. c \<noteq> CHR ''?'')
       (drop (length ''https://image.pollinations.ai/prompt/'') ?u) = ?seg \<and>
     drop (length ''https://image.pollinations.ai/prompt/'' + length ?seg + 1) ?u = ?q"
    by (intro conjI refl)
  then show ?thesis by (simp only: b sum.case)
qed

lemma uri_escape_injection: "uri_escape ''a&b=c?d#e/f'' = ''a%26b%3Dc%3Fd%23e%2Ff''"
  by (simp add: uri_escape_def uri_unreserved_def alnum_def lower_def upper_def digit_def
      percent_byte_def)

theorem prompt_segment_safe_witness:
  "buildPollinationsUrl ''a&b=c?d#e/f'' (Num 256) (Num 256) (Num 123) (Some ''flux'') None =
     Inr ''https://image.pollinations.ai/prompt/a%26b%3Dc%3Fd%23e%2Ff?width=256&height=256&seed=123&nologo=true&model=flux'' \<and>
   percent_decode ''a%26b%3Dc%3Fd%23e%2Ff'' = Some ''a&b=c?d#e/f'' \<and>
   takeWhile (\<lambda>c. c \<noteq> CHR ''?'')
     (drop (length ''https://image.pollinations.ai/prompt/'')
        ''https://image.pollinations.ai/prompt/a%26b%3Dc%3Fd%23e%2Ff?width=256&height=256&seed=123&nologo=true&model=flux'') =
   ''a%26b%3Dc%3Fd%23e%2Ff''"
proof -
  let ?u = "''https://image.pollinations.ai/prompt/a%26b%3Dc%3Fd%23e%2Ff?width=256&height=256&seed=123&nologo=true&model=flux''"
  have n: "\<not> lone_surrogate ''a&b=c?d#e/f''" by simp
  have q: "toString (searchParams (Num 256) (Num 256) (Num 123) (Some ''flux'') None) =
      ''width=256&height=256&seed=123&nologo=true&model=flux''"
    by (simp only: toString_searchParams String_256 form_encode_256) (simp add: form_encode_256)
  have b: "buildPollinationsUrl ''a&b=c?d#e/f'' (Num 256) (Num 256) (Num 123) (Some ''flux'') None =
      Inr ?u"
    by (simp only: buildPollinationsUrl_returns [OF n] uri_escape_injection q) simp
  from prompt_segment_safe
    [of "''a&b=c?d#e/f''" "Num 256" "Num 256" "Num 123" "Some ''flux''" None, unfolded b sum.case]
  have "percent_decode (uri_escape ''a&b=c?d#e/f'') = Some ''a&b=c?d#e/f'' \<and>
        takeWhile (\<lambda>c. c \<noteq> CHR ''?'')
          (drop (length ''https://image.pollinations.ai/prompt/'') ?u) =
        uri_escape ''a&b=c?d#e/f''"
    by (elim conjE) (intro conjI; assumption)
  then have "percent_decode ''a%26b%3Dc%3Fd%23e%2Ff'' = Some ''a&b=c?d#e/f'' \<and>
        takeWhile (\<lambda>c. c \<noteq> CHR ''?'')
          (drop (length ''https://image.pollinations.ai/prompt/'') ?u) =
        ''a%26b%3Dc%3Fd%23e%2Ff''"
    by (simp only: uri_escape_injection)
  with b show ?thesis by (intro conjI) (elim conjE; assumption)+
qed

text \<open>The values of \<open>toNumber\<close> are doubles.\<close>

lemma bit_length_eq: "2 ^ k \<le> n \<Longrightarrow> n < 2 ^ Suc k \<Longrightarrow> bit_length n = Suc k"
  using bit_length_le [of n "Suc k"] bit_length_gt [of k n] by simp

lemma bit_length_upper: "n < 2 ^ bit_length n"
proof (induction n rule: bit_length.induct)
  case (1 n)
  show ?case
  proof (cases "n = 0")
    case True
    then show ?thesis by simp
  next
    case False
    then have "n div 2 < 2 ^ bit_length (n div 2)" by (rule 1)
    then have "n < 2 * 2 ^ bit_length (n div 2)" by simp
    with False show ?thesis by (subst bit_length.simps) simp
  qed
qed

lemma bit_length_lower: "n \<noteq> 0 \<Longrightarrow> 2 ^ (bit_length n - 1) \<le> n"
proof (induction n rule: bit_length.induct)
  case (1 n)
  show ?case
  proof (cases "n div 2 = 0")
    case True
    with 1(2) have "n = 1" by (simp add: div_eq_0_iff) 
    then show ?thesis by (simp add: bit_length.simps)
  next
    case False
    with 1 have l: "2 ^ (bit_length (n div 2) - 1) \<le> n div 2" by simp
    from False have "bit_length (n div 2) \<noteq> 0" by (subst bit_length.simps) simp
    then have "(2::nat) ^ bit_length (n div 2) = 2 * 2 ^ (bit_length (n div 2) - 1)"
      by (cases "bit_length (n div 2)") simp_all
    with l have "2 ^ bit_length (n div 2) \<le> n" by simp
    with 1(2) show ?thesis by (subst bit_length.simps) simp
  qed
qed

text \<open>Rounding a rounded number changes nothing.\<close>

lemma round53_scaled:
  assumes q: "2 ^ 52 \<le> q" "q \<le> 2 ^ 53" and e: "0 < e"
  shows "round53 (q * 2 ^ e) = q * 2 ^ e"
proof (cases "q = 2 ^ 53")
  case True
  have m: "q * 2 ^ e = 2 ^ (53 + e)" by (simp add: True power_add)
  have b: "bit_length (2 ^ (53 + e)) - 53 = Suc e" by (simp add: bit_length_power)
  have "(2::nat) ^ 53 \<le> 2 ^ (53 + e)" by (rule power_increasing) simp_all
  then have g: "\<not> (2::nat) ^ (53 + e) < 2 ^ 53" by (simp only: not_less)
  have d: "(2::nat) ^ (53 + e) div 2 ^ Suc e = 2 ^ 52"
    using power_diff [of "2::nat" "Suc e" "53 + e"] by simp
  have r: "(2::nat) ^ (53 + e) mod 2 ^ Suc e = 0"
    using le_imp_power_dvd [of "Suc e" "53 + e" "2::nat"] by simp
  have "round53 (2 ^ (53 + e)) = 2 ^ 52 * 2 ^ Suc e"
    unfolding round53_def Let_def b d r using g by simp
  also have "\<dots> = 2 ^ (53 + e)" by (simp add: power_add)
  finally show ?thesis by (simp only: m)
next
  case False
  with q have lt: "q < 2 ^ 53" by simp
  let ?m = "q * 2 ^ e"
  from q(1) have "2 ^ 52 * 2 ^ e \<le> ?m" by (rule mult_le_mono1)
  then have lo: "2 ^ (52 + e) \<le> ?m" by (simp only: power_add)
  from lt have "?m < 2 ^ 53 * 2 ^ e" by simp
  then have hi: "?m < 2 ^ Suc (52 + e)" by (simp add: power_add)
  from lo hi have b: "bit_length ?m = Suc (52 + e)" by (rule bit_length_eq)
  then have b': "bit_length ?m - 53 = e" by simp
  have "(2::nat) ^ 53 \<le> 2 ^ (52 + e)" using e by (intro power_increasing) simp_all
  with lo have g: "\<not> ?m < 2 ^ 53" by simp
  have d: "?m div 2 ^ e = q" by simp
  have r: "?m mod 2 ^ e = 0" by simp
  show ?thesis
    unfolding round53_def Let_def b' d r using g by simp
qed

lemma round53_idempotent: "round53 (round53 n) = round53 n"
proof (cases "n < 2 ^ 53")
  case True
  then show ?thesis by (simp add: round53_def)
next
  case False
  define e where "e = bit_length n - 53"
  define q where "q = n div 2 ^ e"
  define q' where "q' = (if 2 ^ e < 2 * (n mod 2 ^ e) \<or> (2 * (n mod 2 ^ e) = 2 ^ e \<and> odd q)
     then q + 1 else q)"
  from False have r: "round53 n = q' * 2 ^ e"
    by (simp add: round53_def Let_def e_def q_def q'_def)
  from False have "53 < bit_length n" by (intro bit_length_gt) simp
  then have b: "bit_length n = 53 + e" and e: "0 < e" by (simp_all add: e_def)
  from False have "n \<noteq> 0" by auto
  then have "2 ^ (bit_length n - 1) \<le> n" by (rule bit_length_lower)
  then have "2 ^ 52 * 2 ^ e \<le> n" by (simp add: b power_add)
  then have "2 ^ 52 * 2 ^ e div 2 ^ e \<le> n div 2 ^ e" by (rule div_le_mono)
  then have lo: "2 ^ 52 \<le> q" by (simp add: q_def)
  have "n < 2 ^ 53 * 2 ^ e" using bit_length_upper [of n] by (simp add: b power_add)
  then have "n div 2 ^ e < 2 ^ 53"
    by (simp add: less_mult_imp_div_less)
  then have hi: "q < 2 ^ 53" by (simp add: q_def)
  from lo hi have "2 ^ 52 \<le> q'" "q' \<le> 2 ^ 53" by (simp_all add: q'_def)
  then show ?thesis unfolding r using e by (rule round53_scaled)
qed

text \<open>
  What \<open>toNumber\<close> yields is a double: converting it again gives the same value.
\<close>

lemma toNumber_double:
  assumes "toNumber n = Num m"
  shows "toNumber m = Num m"
proof -
  let ?r = "round53 (nat \<bar>n\<bar>)"
  from assms have f: "\<not> 1024 < bit_length ?r" and m: "m = sgn n * int ?r"
    by (auto simp: toNumber_def Let_def split: if_splits)
  show ?thesis
  proof (cases "n = 0 \<or> ?r = 0")
    case True
    with m have "m = 0" by auto
    then show ?thesis by (simp add: toNumber_def round53_def bit_length.simps)
  next
    case False
    with m have a: "nat \<bar>m\<bar> = ?r" by (simp add: abs_mult)
    from False m have s: "sgn m = sgn n" by (simp add: sgn_mult)
    have rr: "round53 (nat \<bar>m\<bar>) = ?r" by (simp only: a round53_idempotent)
    have "toNumber m = Num (sgn m * int ?r)"
      unfolding toNumber_def Let_def rr using f by simp
    also have "\<dots> = Num m" unfolding s by (simp only: m)
    finally show ?thesis .
  qed
qed

subsection \<open>Printing numbers\<close>

text \<open>
  Evaluation at numerals. Printing keeps the digits of an integer below \<open>2 ^ 53\<close>; from
  there on it gives the shortest decimal that reads back as the same double, so \<open>2 ^ 55\<close>
  prints as \<^verbatim>\<open>36028797018963970\<close> and \<open>2 ^ 64\<close> as \<^verbatim>\<open>18446744073709552000\<close>, and from
  \<open>10 ^ 21\<close> on it uses the exponent form.
\<close>

lemma bit_length_numeral:
  "bit_length 0 = 0"
  "bit_length 1 = 1"
  "bit_length (Suc 0) = 1"
  "bit_length (numeral Num.One) = 1"
  "bit_length (numeral (Num.Bit0 n)) = Suc (bit_length (numeral n))"
  "bit_length (numeral (Num.Bit1 n)) = Suc (bit_length (numeral n))"
proof -
  show "bit_length 0 = 0" by (simp add: bit_length.simps)
  show one: "bit_length 1 = 1" by (simp add: bit_length.simps)
  then show "bit_length (numeral Num.One) = 1" by simp
  from one show "bit_length (Suc 0) = 1" by simp
  have "bit_length (numeral (Num.Bit0 n)) = Suc (bit_length (numeral (Num.Bit0 n) div 2))"
    by (subst bit_length.simps) simp
  then show "bit_length (numeral (Num.Bit0 n)) = Suc (bit_length (numeral n))" by simp
  have "bit_length (numeral (Num.Bit1 n)) = Suc (bit_length (numeral (Num.Bit1 n) div 2))"
    by (subst bit_length.simps) simp
  then show "bit_length (numeral (Num.Bit1 n)) = Suc (bit_length (numeral n))" by simp
qed

lemma upt_1_18: "[1 ..< 18] = [1, 2, 3, 4, 5, 6, 7, 8, 9, 10, 11, 12, 13, 14, 15, 16, 17 :: nat]"
  by (simp add: upt_rec [of "Suc 0"] numeral_2_eq_2 [symmetric] upt_rec_numeral)

lemma better_cases:
  "better x b b = b"
  "v \<noteq> b \<Longrightarrow> toNumber (int v) \<noteq> toNumber (int x) \<Longrightarrow> better x b v = b"
  "v \<noteq> b \<Longrightarrow> toNumber (int v) = toNumber (int x) \<Longrightarrow>
   better x b v = (if preferred x v b then v else b)"
  by (simp_all add: better_def)

lemmas number_evaluation =
  decimal_of_def shortest_def candidates_def exponential_def
  better_cases
  preferred_def [of "numeral a" "numeral b" "numeral c"]
  toNumber_def [of "numeral a"]
  round53_def [of "numeral a"] bit_length_numeral upt_1_18 [unfolded One_nat_def] upt_1_18
  numeral_2_eq_2 [symmetric]
  digits10.simps [of "numeral a"] digits10.simps [of 0] digits10.simps [of "Suc 0"]
  strip_zeros.simps [of "numeral a"] strip_zeros.simps [of 0] strip_zeros.simps [of "Suc 0"]
  for a b c

lemma String_2_55: "String (Num 36028797018963968) = ''36028797018963970''"
  by (simp add: number_evaluation)

lemma String_1e21: "String (Num 1000000000000000000000) = ''1e+21''"
  by (simp add: number_evaluation)

lemma String_2_64: "String (Num 18446744073709551616) = ''18446744073709552000''"
  by (simp add: number_evaluation)

subsection \<open>File names\<close>

lemma alnum_not_hyphen: "alnum c \<Longrightarrow> c \<noteq> CHR ''-''"
  by (auto simp: alnum_def lower_def upper_def digit_def)




lemma digit_not_upper: "digit c \<Longrightarrow> \<not> upper c"
  by (auto simp: upper_def digit_def)






lemma weakly_separated_alnum: "alnum c \<Longrightarrow> weakly_separated (c # t) = weakly_separated t"
  by (cases t) simp_all

lemma weakly_separated_hyphen:
  "weakly_separated (CHR ''-'' # t) = ((t = [] \<or> alnum (hd t)) \<and> weakly_separated t)"
  by (cases t) (auto dest: alnum_not_hyphen)

lemma weakly_separated_tl: "weakly_separated (c # t) \<Longrightarrow> weakly_separated t"
  by (cases t) simp_all

lemma weakly_separated_chars:
  "weakly_separated s \<Longrightarrow> c \<in> set s \<Longrightarrow> alnum c \<or> c = CHR ''-''"
  by (induction s rule: weakly_separated.induct) auto

lemma separated_alnum: "alnum c \<Longrightarrow> separated (c # t) = separated t"
  by (cases t) simp_all

lemma separated_chars: "separated s \<Longrightarrow> c \<in> set s \<Longrightarrow> alnum c \<or> c = CHR ''-''"
  by (induction s rule: separated.induct) auto

lemma replace_runs_head:
  "replace_runs (dropWhile (\<lambda>d. \<not> alnum d) cs) = [] \<or>
   alnum (hd (replace_runs (dropWhile (\<lambda>d. \<not> alnum d) cs)))"
proof (cases "dropWhile (\<lambda>d. \<not> alnum d) cs")
  case Nil
  then show ?thesis by (simp only: replace_runs.simps simp_thms)
next
  case (Cons a as)
  then have "alnum a"
    using hd_dropWhile [of "\<lambda>d. \<not> alnum d" cs] by simp
  then have "replace_runs (a # as) = a # replace_runs as" by simp
  with Cons \<open>alnum a\<close> show ?thesis by (simp only: list.sel simp_thms)
qed

lemma replace_runs_weakly_separated: "weakly_separated (replace_runs s)"
proof (induction s rule: replace_runs.induct)
  case 1
  show ?case by simp
next
  case (2 c cs)
  show ?case
  proof (cases "alnum c")
    case True
    with 2 show ?thesis by (simp add: weakly_separated_alnum)
  next
    case False
    with 2 replace_runs_head [of cs] show ?thesis
      by (simp add: weakly_separated_hyphen)
  qed
qed

text \<open>Dropping from the end, read from the front.\<close>

lemma drop_end_Cons:
  "rev (dropWhile P (rev (c # cs))) =
     (if rev (dropWhile P (rev cs)) = [] \<and> P c then [] else c # rev (dropWhile P (rev cs)))"
  by (auto simp: dropWhile_append dropWhile_eq_Nil_conv)

lemma drop_end_weakly_separated:
  "weakly_separated s \<Longrightarrow> separated (rev (dropWhile (\<lambda>c. c = CHR ''-'') (rev s)))"
proof (induction s rule: weakly_separated.induct)
  case 1
  show ?case by simp
next
  case (2 c)
  then show ?case by auto
next
  case (3 c d cs)
  let ?g = "\<lambda>s. rev (dropWhile (\<lambda>c. c = CHR ''-'') (rev s))"
  from 3 have ih: "separated (?g (d # cs))" by simp
  show ?case
  proof (cases "alnum c")
    case True
    have "?g (c # d # cs) = c # ?g (d # cs)"
      using alnum_not_hyphen [OF True] by (subst drop_end_Cons) simp
    with ih True show ?thesis by (simp only: separated_alnum)
  next
    case False
    with "3.prems" have c: "c = CHR ''-''" and d: "alnum d" by auto
    have gd: "?g (d # cs) = d # ?g cs"
      using alnum_not_hyphen [OF d] by (subst drop_end_Cons) simp
    then have "?g (c # d # cs) = c # d # ?g cs"
      by (subst drop_end_Cons) simp
    with ih gd c d show ?thesis by simp
  qed
qed


lemma dropWhile_weakly_separated:
  "weakly_separated s \<Longrightarrow> weakly_separated (dropWhile (\<lambda>c. c = CHR ''-'') s)"
proof (induction s)
  case Nil
  show ?case by simp
next
  case (Cons c s)
  from Cons.prems have "weakly_separated s" by (rule weakly_separated_tl)
  with Cons show ?case by simp
qed

text \<open>What the two replacements leave: separated text that starts with a letter or digit.\<close>

lemma strip_hyphens_shape:
  assumes "weakly_separated s"
  shows "separated (strip_hyphens s)"
    and "strip_hyphens s = [] \<or> alnum (hd (strip_hyphens s))"
proof -
  let ?d = "dropWhile (\<lambda>c. c = CHR ''-'') s"
  from assms have w: "weakly_separated ?d" by (rule dropWhile_weakly_separated)
  then show "separated (strip_hyphens s)"
    unfolding strip_hyphens_def by (rule drop_end_weakly_separated)
  show "strip_hyphens s = [] \<or> alnum (hd (strip_hyphens s))"
  proof (cases ?d)
    case Nil
    then show ?thesis by (simp only: strip_hyphens_def rev.simps dropWhile.simps simp_thms)
  next
    case (Cons a as)
    then have "a \<noteq> CHR ''-''"
      using hd_dropWhile [of "\<lambda>c. c = CHR ''-''" s] by simp
    moreover from w Cons have "alnum a \<or> a = CHR ''-''"
      by (intro weakly_separated_chars [of ?d]) simp_all
    ultimately have a: "alnum a" by simp
    have "rev (dropWhile (\<lambda>c. c = CHR ''-'') (rev (a # as))) =
          a # rev (dropWhile (\<lambda>c. c = CHR ''-'') (rev as))"
      using \<open>a \<noteq> CHR ''-''\<close> by (subst drop_end_Cons) simp
    with Cons a show ?thesis by (simp only: strip_hyphens_def list.sel simp_thms)
  qed
qed

text \<open>
  The text \<^verbatim>\<open>sanitizeFilename\<close> hands to \<^verbatim>\<open>toLowerCase\<close> holds ASCII letters, digits and
  hyphens only.
\<close>

lemma ascii_before_toLowerCase:
  "c \<in> set (strip_hyphens (replace_runs name)) \<Longrightarrow> alnum c \<or> c = CHR ''-''"
  using strip_hyphens_shape(1) [OF replace_runs_weakly_separated [of name]]
  by (rule separated_chars)





















end
